theory Spec2Isabelle
  imports Main "HOL-Library.Word" "HOL-Library.Sublist"
begin

section \<open>Errors\<close>

text \<open>
  Go's \<open>error\<close> is an interface; \<open>nil\<close> is the absent error. An error value is
  modelled by \<open>error\<close>, a possibly-nil one by \<open>error option\<close>. The error values that
  occur in \<open>group.go\<close> and its tests are:
  \<^item> \<open>Canceled\<close>: the variable \<open>context.Canceled\<close>;
  \<^item> \<open>DeadlineExceeded\<close>: the variable \<open>context.DeadlineExceeded\<close>;
  \<^item> \<open>Fundamental m\<close>: what \<open>errors.New\<close> and \<open>errors.Errorf\<close> of
    \<open>github.com/pkg/errors\<close> build: a message, nothing to unwrap;
  \<^item> \<open>WithMessage e m\<close>: an error that wraps \<open>e\<close> under the message \<open>m\<close>
    (\<open>errors.WithMessage\<close>, \<open>errors.Wrap\<close>, \<open>fmt.Errorf\<close> with \<open>%w\<close>);
    its \<open>Unwrap\<close> is \<open>e\<close>;
  \<^item> \<open>PanicError v st\<close>: the struct \<open>PanicError{Value: v, Stack: st}\<close> that the
    test file reads (\<open>err.Value\<close>, \<open>err.Stack\<close>, \<open>err.Unwrap()\<close>).
  A panic payload is an \<open>interface{}\<close>: either an error or a value that is not one,
  kept by its string form.
\<close>

datatype error =
    Canceled
  | DeadlineExceeded
  | Fundamental string
  | WithMessage error string
  | PanicError panic_value string
and panic_value =
    PlainValue string
  | ErrorValue error

text \<open>
  Modelled from the spec: the methods of \<open>PanicError\<close>, whose declaration is not in
  \<open>group.go\<close> (the tests there call them). The unwrap accessor yields the original
  error if \<open>Value\<close> is error-shaped, else nothing; the message is \<open>"panic: "\<close>
  followed by the value's error message if it has one, else by its string form. The
  other messages are those of the libraries: \<open>context\<close> for its two errors,
  \<open>pkg/errors\<close> for a wrapped error (\<open>msg + ": " + cause\<close>).
\<close>

fun Unwrap :: "error \<Rightarrow> error option" where
  "Unwrap (WithMessage e m) = Some e"
| "Unwrap (PanicError (ErrorValue e) st) = Some e"
| "Unwrap _ = None"

fun Error :: "error \<Rightarrow> string"
  and render :: "panic_value \<Rightarrow> string" where
  "Error Canceled = ''context canceled''"
| "Error DeadlineExceeded = ''context deadline exceeded''"
| "Error (Fundamental m) = m"
| "Error (WithMessage e m) = m @ '': '' @ Error e"
| "Error (PanicError v st) = ''panic: '' @ render v"
| "render (PlainValue s) = s"
| "render (ErrorValue e) = Error e"

text \<open>
  \<open>errors.Is\<close> of \<open>github.com/pkg/errors\<close> v0.9.1 is the standard library's:
  it walks the \<open>Unwrap\<close> chain of \<open>err\<close> and answers true at the first link that
  equals the target. A \<open>PanicError\<close> holds a byte slice, so it is not comparable and
  is never equal to a target; none of the modelled errors has an \<open>Is\<close> method.
  \<^verbatim>\<open>
  func Is(err, target error) bool {
      isComparable := reflectlite.TypeOf(target).Comparable()
      for {
          if isComparable && err == target { return true }
          if err = Unwrap(err); err == nil { return false }
      }
  }
  \<close>
\<close>

fun comparable :: "error \<Rightarrow> bool" where
  "comparable (PanicError v st) = False"
| "comparable _ = True"

function Is_chain :: "error \<Rightarrow> error \<Rightarrow> bool" where
  "Is_chain e target =
     (if comparable target \<and> e = target then True
      else (case Unwrap e of None \<Rightarrow> False | Some e' \<Rightarrow> Is_chain e' target))"
  by pat_completeness auto
termination
  by (relation "measure (\<lambda>(e, t). size e)") (auto elim: Unwrap.elims)

declare Is_chain.simps [simp del]

fun errors_Is :: "error option \<Rightarrow> error \<Rightarrow> bool" where
  "errors_Is None target = False"
| "errors_Is (Some e) target = Is_chain e target"

section \<open>The group\<close>

text \<open>
  \<^verbatim>\<open>
  type Group struct {
      ctx    context.Context
      cancel context.CancelFunc
      mu      sync.Mutex
      running int
      done    chan struct{}
      closing bool
      err     error
  }
  \<close>
  A context is observed only through \<open>Done()\<close> and \<open>Err()\<close>, and \<open>Done()\<close> is
  closed exactly when \<open>Err()\<close> is not nil; so a context is modelled by the value of
  its \<open>Err()\<close>, \<open>None\<close> while it is live. \<open>running\<close> is a Go \<open>int\<close>, 64 bits
  wide on the platforms the module targets. A channel is a reference: \<open>done\<close> holds an
  index into the heap of channels of the surrounding world. The mutex is not a field of
  the model: each critical section of the source is one atomic step.
\<close>

type_synonym Context = "error option"
type_synonym chan = nat

record Group =
  ctx :: Context
  running :: "64 word"
  done_chan :: chan
  closing :: bool
  err :: "error option"

text \<open>
  \<open>g.cancel\<close> is the cancel function of \<open>context.WithCancel\<close>: it ends \<open>g.ctx\<close>
  with \<open>context.Canceled\<close> unless the context has ended already.
\<close>

definition cancel :: "Group \<Rightarrow> Group" where
  "cancel g = (if ctx g = None then g\<lparr>ctx := Some Canceled\<rparr> else g)"

text \<open>
  \<^verbatim>\<open>
  func (g *Group) exit(err error) {
      if g.closing && errors.Is(err, context.Canceled) { return }
      if g.err == nil { g.err = err }
      if !g.closing { g.closing = true; g.cancel() }
  }
  \<close>
\<close>

definition exit :: "error option \<Rightarrow> Group \<Rightarrow> Group" where
  "exit e g =
     (if closing g \<and> errors_Is e Canceled then g
      else
        (let g1 = (if err g = None then g\<lparr>err := e\<rparr> else g)
         in if \<not> closing g1 then cancel (g1\<lparr>closing := True\<rparr>) else g1))"

section \<open>Channels\<close>

text \<open>
  The channels of the program live in a heap: a list with one flag per channel made so
  far, true once the channel is closed. No value is ever sent on a \<open>done\<close> channel,
  so a receive \<open><-ch\<close> returns exactly when \<open>ch\<close> is closed. \<open>make\<close> yields a
  channel that was not there before; \<open>close\<close> of a closed channel panics in Go, and
  so does \<open>close\<close> of a channel that does not exist (nil).
\<close>

datatype stop = Panic string | NoSuchGoroutine

definition make_chan :: "bool list \<Rightarrow> chan \<times> bool list" where
  "make_chan cs = (length cs, cs @ [False])"

definition close_chan :: "chan \<Rightarrow> bool list \<Rightarrow> stop + bool list" where
  "close_chan ch cs =
     (if \<not> ch < length cs then Inl (Panic ''close of nil channel'')
      else if cs ! ch then Inl (Panic ''close of closed channel'')
      else Inr (cs[ch := True]))"

section \<open>Tasks\<close>

text \<open>
  Modelled from the spec: the declarations of \<open>OnExit\<close>, \<open>Task\<close> and the
  package-level \<open>runTask(ctx, task)\<close> are not in \<open>group.go\<close>. \<open>OnExit\<close> is the
  three-valued enumeration \<open>Continue | Exit | Fail\<close>; a value outside it is kept by
  its \<open>%v\<close> rendering. A \<open>Task\<close> is an opaque function of a context: either one
  supplied by the caller (told apart by a tag) or the closure that \<open>NewSubgroup\<close>
  builds. Running a task body ends in one of two ways: it returns an error or nil, or
  it raises a fatal fault with a payload, at a point where the goroutine's call stack
  holds the given function names, the faulting function first.
\<close>

datatype OnExit = Continue | Exit | Fail | Unrecognized string

datatype Task = TaskFn nat | SubgroupBody "string list"

datatype outcome = Returned "error option" | Panicked panic_value "string list"

text \<open>
  Modelled from the spec: the package-level \<open>runTask(ctx, task)\<close>, the task runner
  of 4.2 (steps 1 to 4), which is not in \<open>group.go\<close>. A normal return is passed on;
  a fatal fault becomes a \<open>PanicError\<close> built at the fault site, whose \<open>Stack\<close>
  is the trace captured at that frame: a header line, then one line for each function
  on the stack, the faulting one first.
\<close>

definition debug_Stack :: "string list \<Rightarrow> string" where
  "debug_Stack frames = ''goroutine [running]:'' @ concat (map (\<lambda>f. CHR 0x0A # f) frames)"

fun runTask :: "outcome \<Rightarrow> error option" where
  "runTask (Returned e) = e"
| "runTask (Panicked v frames) = Some (PanicError v (debug_Stack frames))"

section \<open>The world a group runs in\<close>

text \<open>
  \<^item> \<open>nextTaskID\<close>: the package variable, an \<open>int64\<close>;
  \<^item> \<open>parent\<close>: the context given to \<open>NewGroup\<close>;
  \<^item> \<open>grp\<close>: the group;
  \<^item> \<open>chans\<close>: the heap of channels;
  \<^item> \<open>goroutines\<close>: the goroutines started by \<open>Spawn\<close> whose \<open>runTask\<close> has
    not yet reached its critical section, each with the arguments it was started with
    (id, name, onExit, task).
\<close>

record world =
  nextTaskID :: "64 word"
  parent :: Context
  grp :: Group
  chans :: "bool list"
  goroutines :: "(64 word \<times> string \<times> OnExit \<times> Task) list"

text \<open>
  \<^verbatim>\<open>
  func NewGroup(ctx context.Context) *Group {
      g := new(Group)
      g.ctx, g.cancel = context.WithCancel(ctx)
      g.done = make(chan struct{})
      close(g.done)
      return g
  }
  \<close>
  The derived context has ended as soon as its parent has. The channel is made and
  closed at once, so it enters the heap closed.
\<close>

definition NewGroup :: "Context \<Rightarrow> bool list \<Rightarrow> Group \<times> bool list" where
  "NewGroup c cs =
     (\<lparr>ctx = c, running = 0, done_chan = length cs, closing = False, err = None\<rparr>,
      cs @ [True])"

definition start :: "Context \<Rightarrow> world" where
  "start c =
     (let (g, cs) = NewGroup c []
      in \<lparr>nextTaskID = 0x0bace1d000000000, parent = c, grp = g, chans = cs,
          goroutines = []\<rparr>)"

definition Context :: "world \<Rightarrow> Context" where
  "Context w = ctx (grp w)"

text \<open>
  \<^verbatim>\<open>
  func (g *Group) Spawn(name string, onExit OnExit, task Task) {
      id := atomic.AddInt64(&nextTaskID, 1)
      g.mu.Lock()
      if g.running == 0 { g.done = make(chan struct{}) }
      g.running++
      g.mu.Unlock()
      ...
      go g.runTask(logger.WithLogger(g.ctx, log), id, name, onExit, task)
  }
  \<close>
  The logging calls have no effect on the group and are left out.
\<close>

definition Spawn :: "string \<Rightarrow> OnExit \<Rightarrow> Task \<Rightarrow> world \<Rightarrow> world" where
  "Spawn name onExit task w =
     (let tid = nextTaskID w + 1;
          g = grp w;
          (d, cs) = (if running g = 0 then make_chan (chans w) else (done_chan g, chans w));
          g' = g\<lparr>done_chan := d, running := running g + 1\<rparr>
      in w\<lparr>nextTaskID := tid, grp := g', chans := cs,
           goroutines := goroutines w @ [(tid, name, onExit, task)]\<rparr>)"

text \<open>
  \<^verbatim>\<open>
  func (g *Group) runTask(ctx context.Context, _ int64, name string, onExit OnExit, task Task) {
      err := runTask(ctx, task)
      g.mu.Lock()
      defer g.mu.Unlock()
      if err != nil {
          g.exit(err)
      } else if !g.closing {
          switch onExit {
          case Continue:
          case Exit:  g.exit(nil)
          case Fail:  g.exit(errors.Errorf("task %s terminated unexpectedly", name))
          default:    g.exit(errors.Errorf("task %s: %v", name, onExit))
          }
      }
      g.running--
      if g.running == 0 { close(g.done) }
  }
  \<close>
  \<open>policy\<close> is the \<open>switch\<close>; \<open>Group_runTask\<close> is the method from the point where
  the task body has ended with the given outcome.
\<close>

fun policy :: "string \<Rightarrow> OnExit \<Rightarrow> Group \<Rightarrow> Group" where
  "policy name Continue g = g"
| "policy name Exit g = exit None g"
| "policy name Fail g =
     exit (Some (Fundamental (''task '' @ name @ '' terminated unexpectedly''))) g"
| "policy name (Unrecognized r) g =
     exit (Some (Fundamental (''task '' @ name @ '': '' @ r))) g"

definition Group_runTask :: "string \<Rightarrow> OnExit \<Rightarrow> outcome \<Rightarrow> world \<Rightarrow> stop + world" where
  "Group_runTask name onExit out w =
     (let e = runTask out;
          g = grp w;
          g1 = (if e \<noteq> None then exit e g
                else if \<not> closing g then policy name onExit g
                else g);
          g2 = g1\<lparr>running := running g1 - 1\<rparr>
      in if running g2 = 0
         then (case close_chan (done_chan g2) (chans w) of
                 Inl p \<Rightarrow> Inl p
               | Inr cs \<Rightarrow> Inr (w\<lparr>grp := g2, chans := cs\<rparr>))
         else Inr (w\<lparr>grp := g2\<rparr>))"

text \<open>
  \<^verbatim>\<open>
  func (g *Group) Exit(err error) { g.mu.Lock(); defer g.mu.Unlock(); g.exit(err) }
  func (g *Group) Running() int   { g.mu.Lock(); defer g.mu.Unlock(); return g.running }
  func (g *Group) Done() <-chan struct{} { g.mu.Lock(); defer g.mu.Unlock(); return g.done }
  \<close>
\<close>

definition Group_Exit :: "error option \<Rightarrow> world \<Rightarrow> world" where
  "Group_Exit e w = w\<lparr>grp := exit e (grp w)\<rparr>"

definition Running :: "world \<Rightarrow> int" where
  "Running w = sint (running (grp w))"

definition Done :: "world \<Rightarrow> chan" where
  "Done w = done_chan (grp w)"

definition chan_closed :: "world \<Rightarrow> chan \<Rightarrow> bool" where
  "chan_closed w ch = (ch < length (chans w) \<and> chans w ! ch)"

section \<open>Waiting\<close>

text \<open>
  \<^verbatim>\<open>
  func (g *Group) Wait() error {
      <-g.Done()
      return g.err
  }
  \<close>
  \<open>Wait\<close> can block, and other goroutines may run between its steps, so it is a
  small machine: fetch the current channel, receive from it (a step that can be taken
  only once that channel is closed), read \<open>g.err\<close>. \<open>None\<close> from a step function
  means that the caller cannot move in this world.
\<close>

datatype wait_pc = WDone | WRecv chan | WErr | WRet "error option"

fun Wait_step :: "world \<Rightarrow> wait_pc \<Rightarrow> wait_pc option" where
  "Wait_step w WDone = Some (WRecv (Done w))"
| "Wait_step w (WRecv ch) = (if chan_closed w ch then Some WErr else None)"
| "Wait_step w WErr = Some (WRet (err (grp w)))"
| "Wait_step w (WRet r) = None"

text \<open>
  \<^verbatim>\<open>
  func (g *Group) Complete(ctx context.Context) error {
      select {
      case <-ctx.Done():
      case <-g.ctx.Done():
      }
      if err := g.Wait(); err != nil {
          return err
      }
      return ctx.Err()
  }
  \<close>
  The first argument of \<open>Complete_step\<close> is the state of the context \<open>ctx\<close> that
  \<open>Complete\<close> was called with, at the time of the step.
\<close>

datatype complete_pc = CSelect | CWait wait_pc | CCtxErr | CRet "error option"

fun Complete_step :: "Context \<Rightarrow> world \<Rightarrow> complete_pc \<Rightarrow> complete_pc option" where
  "Complete_step c w CSelect =
     (if c \<noteq> None \<or> ctx (grp w) \<noteq> None then Some (CWait WDone) else None)"
| "Complete_step c w (CWait (WRet r)) = (if r \<noteq> None then Some (CRet r) else Some CCtxErr)"
| "Complete_step c w (CWait p) = map_option CWait (Wait_step w p)"
| "Complete_step c w CCtxErr = Some (CRet c)"
| "Complete_step c w (CRet r) = None"

text \<open>
  A call in a world where nothing else moves: the steps are taken one after the other
  until the call returns (\<open>Some\<close> of the returned error) or blocks for good (\<open>None\<close>).
  \<open>Wait\<close> returns after three steps and \<open>Complete\<close> after at most six, if at all.
\<close>

fun Wait_run :: "nat \<Rightarrow> world \<Rightarrow> wait_pc \<Rightarrow> error option option" where
  "Wait_run n w (WRet r) = Some r"
| "Wait_run 0 w p = None"
| "Wait_run (Suc n) w p =
     (case Wait_step w p of None \<Rightarrow> None | Some p' \<Rightarrow> Wait_run n w p')"

definition Wait :: "world \<Rightarrow> error option option" where
  "Wait w = Wait_run 3 w WDone"

fun Complete_run :: "nat \<Rightarrow> Context \<Rightarrow> world \<Rightarrow> complete_pc \<Rightarrow> error option option" where
  "Complete_run n c w (CRet r) = Some r"
| "Complete_run 0 c w p = None"
| "Complete_run (Suc n) c w p =
     (case Complete_step c w p of None \<Rightarrow> None | Some p' \<Rightarrow> Complete_run n c w p')"

definition Complete :: "Context \<Rightarrow> world \<Rightarrow> error option option" where
  "Complete c w = Complete_run 6 c w CSelect"

section \<open>Histories\<close>

text \<open>
  What can happen to a group, one atomic step at a time:
  \<^item> \<open>Spawns name onExit task\<close>: a call of \<open>Spawn\<close>;
  \<^item> \<open>Finishes i out\<close>: the body of the \<open>i\<close>-th live goroutine ends with outcome
    \<open>out\<close> and its \<open>runTask\<close> runs its critical section;
  \<^item> \<open>Exits e\<close>: a call of \<open>Exit(e)\<close>;
  \<^item> \<open>ParentEnds e\<close>: the parent context ends with \<open>Err() = e\<close>, and the group's
    derived context with it.
  \<open>exec\<close> runs a history and stops at the first step that cannot be taken: a Go panic,
  or a \<open>Finishes\<close> that names no live goroutine.
\<close>

datatype event =
    Spawns string OnExit Task
  | Finishes nat outcome
  | Exits "error option"
  | ParentEnds error

fun step :: "event \<Rightarrow> world \<Rightarrow> stop + world" where
  "step (Spawns name onExit task) w = Inr (Spawn name onExit task w)"
| "step (Finishes i out) w =
     (if i < length (goroutines w)
      then (case goroutines w ! i of (tid, name, onExit, task) \<Rightarrow>
              Group_runTask name onExit out
                (w\<lparr>goroutines := take i (goroutines w) @ drop (Suc i) (goroutines w)\<rparr>))
      else Inl NoSuchGoroutine)"
| "step (Exits e) w = Inr (Group_Exit e w)"
| "step (ParentEnds e) w =
     (if parent w = None
      then Inr (w\<lparr>parent := Some e,
                 grp := (if ctx (grp w) = None then (grp w)\<lparr>ctx := Some e\<rparr> else grp w)\<rparr>)
      else Inr w)"

fun exec :: "event list \<Rightarrow> world \<Rightarrow> stop + world" where
  "exec [] w = Inr w"
| "exec (ev # evs) w = (case step ev w of Inl p \<Rightarrow> Inl p | Inr w' \<Rightarrow> exec evs w')"

text \<open>
  The error, if any, that an event reports to the group through \<open>exit\<close> whatever the
  group's state.
\<close>

fun reported :: "event \<Rightarrow> error option" where
  "reported (Finishes i out) = runTask out"
| "reported (Exits e) = e"
| "reported _ = None"

section \<open>Subgroups\<close>

text \<open>
  \<^verbatim>\<open>
  func NewSubgroup(spawn SpawnFn, name string, onExit OnExit, fields ...zapcore.Field) *Group {
      ch := make(chan *Group)
      spawn(name, onExit, func(ctx context.Context) error {
          if len(fields) > 0 { ctx = logger.With(ctx, fields...) }
          g := NewGroup(ctx)
          ch <- g
          return g.Complete(ctx)
      })
      return <-ch
  }
  \<close>
  \<open>NewSubgroup\<close> runs in two goroutines. The caller makes the channel \<open>ch\<close>, calls
  \<open>spawn\<close> with the closure, and blocks on \<open><-ch\<close>. The closure is the body of a task
  of the parent group: it runs in the goroutine that the parent's \<open>Spawn\<close> starts,
  with the context that the parent's \<open>runTask\<close> hands to it. That context is the parent
  group's context with values for the logger added (and \<open>logger.With\<close> adds more of
  them), so its \<open>Done()\<close> and \<open>Err()\<close> are those of the parent group's context.

  In \<open>step\<close> the body of a task is not run: the event \<open>Finishes\<close> brings the outcome
  with it, whatever it is. For the task that \<open>NewSubgroup\<close> registers the body is run
  here, statement by statement. \<open>sub_pc\<close> says where the closure stands:
  \<^item> \<open>SNewGroup\<close>: before \<open>g := NewGroup(ctx)\<close>;
  \<^item> \<open>SSend\<close>: before \<open>ch <- g\<close>;
  \<^item> \<open>SComplete p\<close>: in \<open>g.Complete(ctx)\<close>, at the point \<open>p\<close> of \<open>Complete\<close>
    (at \<open>CRet r\<close> the call has returned \<open>r\<close> and the closure is about to return it);
  \<^item> \<open>SExited\<close>: the closure has returned and the parent's \<open>runTask\<close> has run its
    critical section.
  The state of one invocation of \<open>NewSubgroup\<close>:
  \<^item> \<open>outer\<close>: the world of the parent group;
  \<^item> \<open>slot\<close>: the index, among the parent's live goroutines, of the goroutine that
    runs the closure;
  \<^item> \<open>closure\<close>: where the closure stands;
  \<^item> \<open>nested\<close>: the group \<open>g\<close> that the closure has made, in a world of its own
    (its own heap of channels and goroutines; the task ids only label log lines, so each
    world counts its own), \<open>None\<close> before \<open>NewGroup\<close>;
  \<^item> \<open>received\<close>: whether \<open><-ch\<close> in \<open>NewSubgroup\<close> has returned.
  \<open>ch\<close> is unbuffered and has one sender and one receiver, so the send and the receive
  complete together, in one step.
\<close>

datatype sub_pc = SNewGroup | SSend | SComplete complete_pc | SExited

record subgroup =
  outer :: world
  slot :: nat
  closure :: sub_pc
  nested :: "world option"
  received :: bool

text \<open>
  \<open>NewSubgroup\<close> up to its last line: \<open>spawn\<close> is called with the name, the policy
  and the closure (the task \<open>SubgroupBody fs\<close>, with \<open>fs\<close> the log fields it has
  captured). \<open>spawn\<close> is a group's \<open>Spawn\<close>, which puts the new goroutine last in the
  list. \<open>NewSubgroup_recv\<close> is the last line, \<open>return <-ch\<close>: \<open>None\<close> while the
  receive blocks, then the nested group.
\<close>

definition NewSubgroup ::
  "(string \<Rightarrow> OnExit \<Rightarrow> Task \<Rightarrow> world \<Rightarrow> world) \<Rightarrow> string \<Rightarrow> OnExit \<Rightarrow> string list \<Rightarrow> world
     \<Rightarrow> subgroup" where
  "NewSubgroup spawn name onExit fs w =
     \<lparr>outer = spawn name onExit (SubgroupBody fs) w, slot = length (goroutines w),
      closure = SNewGroup, nested = None, received = False\<rparr>"

definition NewSubgroup_recv :: "subgroup \<Rightarrow> world option" where
  "NewSubgroup_recv s = (if received s then nested s else None)"

text \<open>
  The nested group's context is derived from the closure's \<open>ctx\<close>: when the parent
  group's context has ended with \<open>Err() = e\<close>, so has the parent context of the nested
  group. \<open>cascade\<close> brings the nested world up to date with the state \<open>c\<close> of the
  parent group's context.
\<close>

definition cascade :: "Context \<Rightarrow> world option \<Rightarrow> world option" where
  "cascade c n =
     (case (c, n) of
        (Some e, Some m) \<Rightarrow> (case step (ParentEnds e) m of Inl p \<Rightarrow> Some m | Inr m' \<Rightarrow> Some m')
      | _ \<Rightarrow> n)"

text \<open>
  One step of the closure. \<open>NewGroup(ctx)\<close> makes the nested group from the state of
  the closure's context; the send hands it to \<open>NewSubgroup\<close>; \<open>g.Complete(ctx)\<close> takes
  the steps of \<open>Complete\<close> on the nested group, with the closure's context as its
  argument, and stays where it is while \<open>Complete\<close> is blocked; the value that
  \<open>Complete\<close> returns is returned to the parent's \<open>runTask\<close>, which ends the goroutine
  with that outcome.
\<close>

datatype sub_stop = Stopped stop | Disabled

definition body_step :: "subgroup \<Rightarrow> sub_stop + subgroup" where
  "body_step s =
     (case closure s of
        SNewGroup \<Rightarrow> Inr (s\<lparr>nested := Some (start (Context (outer s))), closure := SSend\<rparr>)
      | SSend \<Rightarrow> Inr (s\<lparr>received := True, closure := SComplete CSelect\<rparr>)
      | SComplete (CRet r) \<Rightarrow>
          (case step (Finishes (slot s) (Returned r)) (outer s) of
             Inl p \<Rightarrow> Inl (Stopped p)
           | Inr w' \<Rightarrow> Inr (s\<lparr>outer := w', closure := SExited,
                              nested := cascade (Context w') (nested s)\<rparr>))
      | SComplete p \<Rightarrow>
          (case nested s of
             None \<Rightarrow> Inl Disabled
           | Some n \<Rightarrow>
               (case Complete_step (Context (outer s)) n p of
                  None \<Rightarrow> Inr s
                | Some p' \<Rightarrow> Inr (s\<lparr>closure := SComplete p'\<rparr>)))
      | SExited \<Rightarrow> Inl Disabled)"

text \<open>
  What can happen to a parent group and its subgroup, one atomic step at a time:
  \<^item> \<open>Outer ev\<close>: an event of the parent group. The goroutine that runs the closure
    ends only when the closure returns, so \<open>Finishes\<close> of that goroutine is not among
    these events; \<open>slot_after\<close> follows the goroutine in the list as others end.
  \<^item> \<open>Nested ev\<close>: an event of the nested group. Before \<open>NewSubgroup\<close> has returned
    the group, only the closure holds it, so there is none; and the parent context of
    the nested group ends only with the parent group's context.
  \<^item> \<open>Body\<close>: the next step of the closure.
\<close>

datatype sub_event = Outer event | Nested event | Body

fun ends_goroutine :: "event \<Rightarrow> nat \<Rightarrow> bool" where
  "ends_goroutine (Finishes i out) k = (i = k)"
| "ends_goroutine ev k = False"

fun slot_after :: "event \<Rightarrow> nat \<Rightarrow> nat" where
  "slot_after (Finishes i out) k = (if i < k then k - 1 else k)"
| "slot_after ev k = k"

fun is_ParentEnds :: "event \<Rightarrow> bool" where
  "is_ParentEnds (ParentEnds e) = True"
| "is_ParentEnds ev = False"

fun sub_step :: "sub_event \<Rightarrow> subgroup \<Rightarrow> sub_stop + subgroup" where
  "sub_step (Outer ev) s =
     (if closure s \<noteq> SExited \<and> ends_goroutine ev (slot s) then Inl Disabled
      else (case step ev (outer s) of
              Inl p \<Rightarrow> Inl (Stopped p)
            | Inr w' \<Rightarrow> Inr (s\<lparr>outer := w', slot := slot_after ev (slot s),
                                nested := cascade (Context w') (nested s)\<rparr>)))"
| "sub_step (Nested ev) s =
     (case nested s of
        None \<Rightarrow> Inl Disabled
      | Some n \<Rightarrow>
          if \<not> received s \<or> is_ParentEnds ev then Inl Disabled
          else (case step ev n of
                  Inl p \<Rightarrow> Inl (Stopped p)
                | Inr n' \<Rightarrow> Inr (s\<lparr>nested := Some n'\<rparr>)))"
| "sub_step Body s = body_step s"

fun sub_exec :: "sub_event list \<Rightarrow> subgroup \<Rightarrow> sub_stop + subgroup" where
  "sub_exec [] s = Inr s"
| "sub_exec (h # hs) s = (case sub_step h s of Inl p \<Rightarrow> Inl p | Inr s' \<Rightarrow> sub_exec hs s')"

section \<open>The invariant of the completion gate\<close>

text \<open>
  What holds of a group between any two atomic steps: \<open>running\<close> counts the live
  goroutines, \<open>done\<close> is a channel of the heap, and that channel is closed exactly
  when \<open>running\<close> is zero.
\<close>

definition gate_inv :: "world \<Rightarrow> bool" where
  "gate_inv w \<longleftrightarrow>
     unat (running (grp w)) = length (goroutines w) \<and>
     done_chan (grp w) < length (chans w) \<and>
     (chans w ! done_chan (grp w)) = (running (grp w) = 0)"

text \<open>
  What holds of the shutdown state: once \<open>closing\<close> is set the group's context
  has ended, and an error is recorded only in a closing group.
\<close>

definition shut_inv :: "Group \<Rightarrow> bool" where
  "shut_inv g \<longleftrightarrow> (closing g \<longrightarrow> ctx g \<noteq> None) \<and> (err g \<noteq> None \<longrightarrow> closing g)"

text \<open>
  What holds of a subgroup between any two steps, for the goroutine \<open>t\<close> that
  \<open>NewSubgroup\<close> has registered: until the closure has returned, \<open>t\<close> is a live
  goroutine of the parent, at \<open>slot\<close>; the nested group does not exist before
  \<open>NewGroup\<close>, is the new group of the closure's context until it is sent, and exists
  ever after; \<open>NewSubgroup\<close> has received it exactly when the closure is past the send;
  and the nested group is a group made by \<open>NewGroup\<close> and changed by its own events
  only, whose parent context is in the state of the parent group's context.
\<close>

definition sub_inv :: "64 word \<times> string \<times> OnExit \<times> Task \<Rightarrow> subgroup \<Rightarrow> bool" where
  "sub_inv t s \<longleftrightarrow>
     (closure s \<noteq> SExited \<longrightarrow>
        slot s < length (goroutines (outer s)) \<and> goroutines (outer s) ! slot s = t) \<and>
     (closure s = SNewGroup \<longrightarrow> nested s = None) \<and>
     (closure s = SSend \<longrightarrow> nested s = Some (start (Context (outer s)))) \<and>
     (closure s \<noteq> SNewGroup \<longrightarrow> nested s \<noteq> None) \<and>
     received s = (closure s \<noteq> SNewGroup \<and> closure s \<noteq> SSend) \<and>
     (\<forall>n. nested s = Some n \<longrightarrow>
        parent n = Context (outer s) \<and> (\<exists>evs c. exec evs (start c) = Inr n))"

section \<open>Basic facts\<close>

lemma Is_chain_unfold:
  "Is_chain e t = ((comparable t \<and> e = t) \<or> (case Unwrap e of None \<Rightarrow> False | Some e' \<Rightarrow> Is_chain e' t))"
  by (subst Is_chain.simps) auto

lemma running_exit [simp]: "running (exit e g) = running g"
  by (simp add: exit_def cancel_def Let_def)

lemma done_chan_exit [simp]: "done_chan (exit e g) = done_chan g"
  by (simp add: exit_def cancel_def Let_def)

lemma closing_exit [simp]: "closing (exit e g)"
  by (simp add: exit_def cancel_def Let_def)

lemma err_exit_set: "err g = Some x \<Longrightarrow> err (exit e g) = Some x"
  by (simp add: exit_def cancel_def Let_def)

lemma running_policy [simp]: "running (policy n p g) = running g"
  by (cases p) simp_all

lemma done_chan_policy [simp]: "done_chan (policy n p g) = done_chan g"
  by (cases p) simp_all

lemma err_policy_set: "err g = Some x \<Longrightarrow> err (policy n p g) = Some x"
  by (cases p) (simp_all add: err_exit_set)

lemma gate_inv_start: "gate_inv (start c)"
  by (simp add: gate_inv_def start_def NewGroup_def)

lemma unat_succ64: "unat (r :: 64 word) < 2 ^ 63 \<Longrightarrow> unat (r + 1) = unat r + 1"
  by (simp add: unat_word_ariths)

lemma unat_pred64: "(r :: 64 word) \<noteq> 0 \<Longrightarrow> unat (r - 1) = unat r - 1"
  by (rule unat_minus_one)

lemma sint_small64: "unat (r :: 64 word) < 2 ^ 63 \<Longrightarrow> sint r = int (unat r)"
proof -
  assume a: "unat r < 2 ^ 63"
  have "int (unat r) < int (2 ^ 63)" using a by (simp only: of_nat_less_iff)
  then have "int (unat r) < 2 ^ 63" by simp
  moreover have "- (2 ^ 63) \<le> int (unat r)"
    by (rule order_trans [of _ 0]) simp_all
  ultimately have "signed_take_bit 63 (int (unat r)) = int (unat r)"
    by (rule signed_take_bit_int_eq_self [rotated])
  then show ?thesis by (simp add: sint_uint)
qed

lemma Running_live:
  assumes "gate_inv w" "length (goroutines w) < 2 ^ 63"
  shows "Running w = int (length (goroutines w))"
  using assms by (simp add: Running_def gate_inv_def sint_small64)

lemma gate_inv_Spawn:
  assumes "gate_inv w" "length (goroutines w) < 2 ^ 63"
  shows "gate_inv (Spawn n p t w)"
proof -
  have u: "unat (running (grp w)) < 2 ^ 63" using assms by (simp add: gate_inv_def)
  have nz: "running (grp w) + 1 \<noteq> 0"
    using unat_succ64 [OF u] by (metis Suc_eq_plus1 nat.simps(3) unat_0)
  show ?thesis
    using assms nz unat_succ64 [OF u]
    by (auto simp: gate_inv_def Spawn_def make_chan_def Let_def nth_append)
qed

lemma gate_inv_Finishes:
  assumes "gate_inv w" "i < length (goroutines w)"
  shows "\<exists>w'. step (Finishes i out) w = Inr w' \<and> gate_inv w' \<and>
           Suc (length (goroutines w')) = length (goroutines w)"
proof -
  have nz: "running (grp w) \<noteq> 0" using assms by (auto simp: gate_inv_def)
  have len: "Suc (length (take i (goroutines w) @ drop (Suc i) (goroutines w))) = length (goroutines w)"
    using assms(2) by simp
  show ?thesis
    using assms nz unat_pred64 [OF nz] len
    by (auto simp: gate_inv_def Group_runTask_def close_chan_def Let_def split: prod.splits)
qed

lemma gate_inv_Exits: "gate_inv w \<Longrightarrow> gate_inv (Group_Exit e w)"
  by (simp add: gate_inv_def Group_Exit_def)

lemma gate_inv_step:
  assumes "gate_inv w" "length (goroutines w) < 2 ^ 63" "step ev w = Inr w'"
  shows "gate_inv w' \<and> length (goroutines w') \<le> Suc (length (goroutines w))"
proof (cases ev)
  case (Spawns n p t)
  then show ?thesis using assms gate_inv_Spawn [OF assms(1,2)]
    by (auto simp: Spawn_def Let_def split: prod.splits)
next
  case (Finishes i out)
  then show ?thesis using assms gate_inv_Finishes [OF assms(1), of i out]
    by (auto split: if_splits)
next
  case (Exits e)
  then show ?thesis using assms gate_inv_Exits by (auto simp: Group_Exit_def)
next
  case (ParentEnds e)
  then show ?thesis using assms by (auto simp: gate_inv_def split: if_splits)
qed

lemma step_no_panic:
  assumes "gate_inv w"
  shows "step ev w \<noteq> Inl (Panic m)"
proof (cases ev)
  case (Finishes i out)
  then show ?thesis using gate_inv_Finishes [OF assms, of i out]
    by (cases "i < length (goroutines w)") auto
qed (auto split: if_splits)

lemma gate_inv_exec:
  "gate_inv w \<Longrightarrow> length (goroutines w) + length evs < 2 ^ 63 \<Longrightarrow> exec evs w = Inr w' \<Longrightarrow>
     gate_inv w' \<and> length (goroutines w') \<le> length (goroutines w) + length evs"
proof (induction evs arbitrary: w)
  case Nil
  then show ?case by simp
next
  case (Cons ev evs)
  from Cons.prems(3) obtain w1 where s: "step ev w = Inr w1" and e: "exec evs w1 = Inr w'"
    by (auto split: sum.splits)
  have b: "length (goroutines w) < 2 ^ 63" using Cons.prems(2) by simp
  from gate_inv_step [OF Cons.prems(1) b s]
  have i1: "gate_inv w1" and l1: "length (goroutines w1) \<le> Suc (length (goroutines w))" by simp_all
  have b1: "length (goroutines w1) + length evs < 2 ^ 63" using l1 Cons.prems(2) by simp
  from Cons.IH [OF i1 b1 e] l1 show ?case by simp
qed

lemma reachable_inv:
  assumes "exec evs (start c) = Inr w" "length evs < 2 ^ 63"
  shows "gate_inv w \<and> length (goroutines w) < 2 ^ 63"
proof -
  have "length (goroutines (start c)) + length evs < 2 ^ 63"
    using assms(2) by (simp add: start_def NewGroup_def)
  from gate_inv_exec [OF gate_inv_start this assms(1)] assms(2)
  show ?thesis by (simp add: start_def NewGroup_def)
qed

lemma err_step_set:
  assumes "err (grp w) = Some x" "step ev w = Inr w'"
  shows "err (grp w') = Some x"
proof (cases ev)
  case (Finishes i out)
  then show ?thesis using assms
    by (auto simp: Group_runTask_def Let_def err_exit_set err_policy_set
        split: if_splits prod.splits sum.splits)
qed (use assms in \<open>auto simp: Spawn_def Group_Exit_def Let_def err_exit_set split: if_splits prod.splits\<close>)

lemma err_exec_set:
  "err (grp w) = Some x \<Longrightarrow> exec evs w = Inr w' \<Longrightarrow> err (grp w') = Some x"
proof (induction evs arbitrary: w)
  case Nil
  then show ?case by simp
next
  case (Cons ev evs)
  from Cons.prems(2) obtain w1 where s: "step ev w = Inr w1" and e: "exec evs w1 = Inr w'"
    by (auto split: sum.splits)
  from Cons.IH [OF err_step_set [OF Cons.prems(1) s] e] show ?case .
qed

lemma Wait_eq: "Wait w = (if chan_closed w (Done w) then Some (err (grp w)) else None)"
  by (simp add: Wait_def eval_nat_numeral)

lemma Complete_eq:
  "Complete c w =
     (if (c \<noteq> None \<or> ctx (grp w) \<noteq> None) \<and> chan_closed w (Done w)
      then Some (if err (grp w) \<noteq> None then err (grp w) else c) else None)"
  by (simp add: Complete_def eval_nat_numeral)

lemma running_zero_iff:
  assumes "gate_inv w"
  shows "running (grp w) = 0 \<longleftrightarrow> goroutines w = []"
proof -
  have "running (grp w) = 0 \<longleftrightarrow> unat (running (grp w)) = 0"
    by (simp add: unat_eq_zero)
  then show ?thesis using assms by (simp add: gate_inv_def)
qed

lemma gate_closed_iff:
  assumes "gate_inv w" "length (goroutines w) < 2 ^ 63"
  shows "chan_closed w (Done w) \<longleftrightarrow> Running w = 0"
  using assms Running_live [OF assms] running_zero_iff [OF assms(1)]
  by (simp add: gate_inv_def chan_closed_def Done_def)

lemma Spawn_effect:
  "goroutines (Spawn n p t w) = goroutines w @ [(nextTaskID w + 1, n, p, t)] \<and>
   (if running (grp w) = 0
    then chans (Spawn n p t w) = chans w @ [False] \<and> Done (Spawn n p t w) = length (chans w)
    else chans (Spawn n p t w) = chans w \<and> Done (Spawn n p t w) = Done w)"
  by (simp add: Spawn_def make_chan_def Done_def Let_def)

lemma closed_step:
  assumes "chan_closed w ch" "step ev w = Inr w'"
  shows "chan_closed w' ch"
proof (cases ev)
  case (Spawns n p t)
  then show ?thesis using assms Spawn_effect [of n p t w]
    by (auto simp: chan_closed_def nth_append split: if_splits)
next
  case (Finishes i out)
  then show ?thesis using assms
    by (auto simp: chan_closed_def Group_runTask_def close_chan_def Let_def nth_list_update
        split: if_splits prod.splits)
next
  case (Exits e)
  then show ?thesis using assms by (auto simp: chan_closed_def Group_Exit_def)
next
  case (ParentEnds e)
  then show ?thesis using assms by (auto simp: chan_closed_def split: if_splits)
qed

lemma closed_exec:
  "chan_closed w ch \<Longrightarrow> exec evs w = Inr w' \<Longrightarrow> chan_closed w' ch"
proof (induction evs arbitrary: w)
  case Nil
  then show ?case by simp
next
  case (Cons ev evs)
  from Cons.prems(2) obtain w1 where s: "step ev w = Inr w1" and e: "exec evs w1 = Inr w'"
    by (auto split: sum.splits)
  from Cons.IH [OF closed_step [OF Cons.prems(1) s] e] show ?case .
qed

lemma Finishes_effect:
  assumes "step (Finishes i out) w = Inr w'"
  shows "i < length (goroutines w) \<and> Done w' = Done w \<and>
         goroutines w' = take i (goroutines w) @ drop (Suc i) (goroutines w) \<and>
         running (grp w') = running (grp w) - 1 \<and>
         chans w' = (if running (grp w') = 0 then (chans w)[Done w := True] else chans w)"
  using assms
  by (auto simp: Group_runTask_def close_chan_def Done_def Let_def
      split: if_splits prod.splits)

lemma quiet_step_effect:
  assumes "step ev w = Inr w'" "ev = Exits e \<or> ev = ParentEnds x"
  shows "Done w' = Done w \<and> chans w' = chans w \<and> goroutines w' = goroutines w \<and>
         running (grp w') = running (grp w)"
  using assms by (auto simp: Group_Exit_def Done_def split: if_splits)

lemma reachable_live:
  assumes "exec evs (start c) = Inr w" "length evs < 2 ^ 63"
  shows "length (goroutines w) \<le> length evs"
proof -
  have "length (goroutines (start c)) + length evs < 2 ^ 63"
    using assms(2) by (simp add: start_def NewGroup_def)
  from gate_inv_exec [OF gate_inv_start this assms(1)]
  show ?thesis by (simp add: start_def NewGroup_def)
qed

lemma gate_transition:
  assumes inv: "gate_inv w" and b: "length (goroutines w) + 1 < 2 ^ 63"
    and s: "step ev w = Inr w'"
  shows "(\<not> chan_closed w' (Done w')) = (0 < Running w') \<and>
         (if Running w = 0 \<and> Running w' = 1
          then (\<exists>n p t. ev = Spawns n p t) \<and>
               chans w' = chans w @ [False] \<and> Done w' = length (chans w)
          else if Running w \<noteq> 0 \<and> Running w' = 0
          then (\<exists>i out. ev = Finishes i out) \<and>
               chans w' = (chans w)[Done w := True] \<and> Done w' = Done w
          else chans w' = chans w \<and> Done w' = Done w)"
proof -
  have b0: "length (goroutines w) < 2 ^ 63" using b by simp
  from gate_inv_step [OF inv b0 s]
  have inv': "gate_inv w'" and l': "length (goroutines w') \<le> Suc (length (goroutines w))"
    by simp_all
  have b': "length (goroutines w') < 2 ^ 63" using l' b by simp
  have r: "Running w = int (length (goroutines w))" by (rule Running_live [OF inv b0])
  have r': "Running w' = int (length (goroutines w'))" by (rule Running_live [OF inv' b'])
  have z: "running (grp w) = 0 \<longleftrightarrow> goroutines w = []" by (rule running_zero_iff [OF inv])
  have z': "running (grp w') = 0 \<longleftrightarrow> goroutines w' = []" by (rule running_zero_iff [OF inv'])
  have g': "(\<not> chan_closed w' (Done w')) = (0 < Running w')"
    using gate_closed_iff [OF inv' b'] r' by simp
  have "if Running w = 0 \<and> Running w' = 1
          then (\<exists>n p t. ev = Spawns n p t) \<and>
               chans w' = chans w @ [False] \<and> Done w' = length (chans w)
          else if Running w \<noteq> 0 \<and> Running w' = 0
          then (\<exists>i out. ev = Finishes i out) \<and>
               chans w' = (chans w)[Done w := True] \<and> Done w' = Done w
          else chans w' = chans w \<and> Done w' = Done w"
  proof (cases ev)
    case (Spawns n p t)
    then have w': "w' = Spawn n p t w" using s by simp
    have l: "length (goroutines w') = Suc (length (goroutines w))"
      using Spawn_effect [of n p t w] w' by simp
    show ?thesis using Spawn_effect [of n p t w] z Spawns l w'
      unfolding r r' by (cases "goroutines w") auto
  next
    case (Finishes i out)
    from Finishes_effect [OF s [unfolded Finishes]]
    show ?thesis using z' Finishes unfolding r r'
      by (cases "goroutines w'") auto
  next
    case (Exits e)
    from quiet_step_effect [OF s, of e] Exits
    show ?thesis unfolding r r' by simp
  next
    case (ParentEnds x)
    from quiet_step_effect [OF s, of _ x] ParentEnds
    show ?thesis unfolding r r' by simp
  qed
  with g' show ?thesis by simp
qed

lemma shut_inv_exit: "shut_inv g \<Longrightarrow> shut_inv (exit e g)"
  by (auto simp: shut_inv_def exit_def cancel_def Let_def)

lemma shut_inv_policy: "shut_inv g \<Longrightarrow> shut_inv (policy n p g)"
  by (cases p) (simp_all add: shut_inv_exit)

lemma shut_inv_running [simp]: "shut_inv (g\<lparr>running := r\<rparr>) = shut_inv g"
  by (simp add: shut_inv_def)

lemma shut_inv_done_chan [simp]: "shut_inv (g\<lparr>done_chan := d\<rparr>) = shut_inv g"
  by (simp add: shut_inv_def)

lemma Group_runTask_grp:
  assumes "Group_runTask n p out w = Inr w'"
  shows "grp w' = (if runTask out \<noteq> None then exit (runTask out) (grp w)
                   else if \<not> closing (grp w) then policy n p (grp w)
                   else grp w)\<lparr>running := running (grp w) - 1\<rparr>"
proof -
  let ?g1 = "if runTask out \<noteq> None then exit (runTask out) (grp w)
             else if \<not> closing (grp w) then policy n p (grp w) else grp w"
  have r: "running ?g1 = running (grp w)" by simp
  show ?thesis using assms unfolding Group_runTask_def Let_def r
    by (auto split: if_splits sum.splits)
qed

lemma Finishes_grp:
  assumes "step (Finishes i out) w = Inr w'"
  shows "\<exists>tid n p t. i < length (goroutines w) \<and> goroutines w ! i = (tid, n, p, t) \<and>
           grp w' = (if runTask out \<noteq> None then exit (runTask out) (grp w)
                     else if \<not> closing (grp w) then policy n p (grp w)
                     else grp w)\<lparr>running := running (grp w) - 1\<rparr>"
proof -
  have i: "i < length (goroutines w)" using assms by (simp split: if_splits)
  obtain tid n p t where g: "goroutines w ! i = (tid, n, p, t)"
    by (cases "goroutines w ! i") auto
  have "Group_runTask n p out
          (w\<lparr>goroutines := take i (goroutines w) @ drop (Suc i) (goroutines w)\<rparr>) = Inr w'"
    using assms i g by simp
  from Group_runTask_grp [OF this] i g show ?thesis by simp
qed

lemma shut_inv_step:
  assumes "shut_inv (grp w)" "step ev w = Inr w'"
  shows "shut_inv (grp w')"
proof (cases ev)
  case (Spawns n p t)
  then have "w' = Spawn n p t w" using assms(2) by simp
  then show ?thesis using assms(1)
    by (simp add: Spawn_def Let_def split: prod.splits)
next
  case (Finishes i out)
  from Finishes_grp [OF assms(2) [unfolded Finishes]]
  obtain n p where "grp w' = (if runTask out \<noteq> None then exit (runTask out) (grp w)
                     else if \<not> closing (grp w) then policy n p (grp w)
                     else grp w)\<lparr>running := running (grp w) - 1\<rparr>" by blast
  then show ?thesis using assms(1) by (simp add: shut_inv_exit shut_inv_policy)
next
  case (Exits e)
  then show ?thesis using assms by (auto simp: Group_Exit_def shut_inv_exit)
next
  case (ParentEnds x)
  then show ?thesis using assms by (auto simp: shut_inv_def split: if_splits)
qed

lemma shut_inv_exec:
  "shut_inv (grp w) \<Longrightarrow> exec evs w = Inr w' \<Longrightarrow> shut_inv (grp w')"
proof (induction evs arbitrary: w)
  case Nil
  then show ?case by simp
next
  case (Cons ev evs)
  from Cons.prems(2) obtain w1 where s: "step ev w = Inr w1" and e: "exec evs w1 = Inr w'"
    by (auto split: sum.splits)
  from Cons.IH [OF shut_inv_step [OF Cons.prems(1) s] e] show ?case .
qed

lemma shut_inv_start: "shut_inv (grp (start c))"
  by (simp add: shut_inv_def start_def NewGroup_def)

lemma quiet_exit:
  "closing g \<Longrightarrow> err g = None \<Longrightarrow> e = None \<or> errors_Is e Canceled \<Longrightarrow>
     closing (exit e g) \<and> err (exit e g) = None"
  by (auto simp: exit_def Let_def)

lemma quiet_after_shutdown_step:
  assumes "closing (grp w)" "err (grp w) = None" "step ev w = Inr w'"
    "reported ev = None \<or> errors_Is (reported ev) Canceled"
  shows "closing (grp w') \<and> err (grp w') = None"
proof (cases ev)
  case (Spawns n p t)
  then have "w' = Spawn n p t w" using assms(3) by simp
  then show ?thesis using assms(1,2) by (simp add: Spawn_def Let_def split: prod.splits)
next
  case (Finishes i out)
  from Finishes_grp [OF assms(3) [unfolded Finishes]]
  obtain n p where g: "grp w' = (if runTask out \<noteq> None then exit (runTask out) (grp w)
                     else if \<not> closing (grp w) then policy n p (grp w)
                     else grp w)\<lparr>running := running (grp w) - 1\<rparr>" by blast
  have "runTask out = None \<or> errors_Is (runTask out) Canceled" using assms(4) Finishes by simp
  from quiet_exit [OF assms(1,2) this] show ?thesis using g assms(1,2) by simp
next
  case (Exits e)
  then have "grp w' = exit e (grp w)" using assms(3) by (auto simp: Group_Exit_def)
  then show ?thesis using quiet_exit [OF assms(1,2), of e] assms(4) Exits by simp
next
  case (ParentEnds x)
  then show ?thesis using assms by (auto split: if_splits)
qed

lemma quiet_after_shutdown_exec:
  "closing (grp w) \<Longrightarrow> err (grp w) = None \<Longrightarrow> exec evs w = Inr w' \<Longrightarrow>
   \<forall>ev\<in>set evs. reported ev = None \<or> errors_Is (reported ev) Canceled \<Longrightarrow>
   closing (grp w') \<and> err (grp w') = None"
proof (induction evs arbitrary: w)
  case Nil
  then show ?case by simp
next
  case (Cons ev evs)
  from Cons.prems(3) obtain w1 where s: "step ev w = Inr w1" and e: "exec evs w1 = Inr w'"
    by (auto split: sum.splits)
  have r: "reported ev = None \<or> errors_Is (reported ev) Canceled" using Cons.prems(4) by simp
  from quiet_after_shutdown_step [OF Cons.prems(1,2) s r]
  have c1: "closing (grp w1)" and e1: "err (grp w1) = None" by simp_all
  from Cons.IH [OF c1 e1 e] Cons.prems(4) show ?case by simp
qed

lemma late_exit:
  "closing g \<Longrightarrow> err g = None \<Longrightarrow> \<not> errors_Is (Some x) Canceled \<Longrightarrow>
     err (exit (Some x) g) = Some x"
  by (simp add: exit_def Let_def)

lemma late_error_recorded:
  assumes "closing (grp w)" "err (grp w) = None" "step ev w = Inr w'"
    "reported ev = Some x" "\<not> errors_Is (Some x) Canceled"
  shows "err (grp w') = Some x"
proof (cases ev)
  case (Finishes i out)
  from Finishes_grp [OF assms(3) [unfolded Finishes]]
  obtain n p where g: "grp w' = (if runTask out \<noteq> None then exit (runTask out) (grp w)
                     else if \<not> closing (grp w) then policy n p (grp w)
                     else grp w)\<lparr>running := running (grp w) - 1\<rparr>" by blast
  have "runTask out = Some x" using assms(4) Finishes by simp
  then show ?thesis using g late_exit [OF assms(1,2,5)] by simp
next
  case (Exits e)
  then have "grp w' = exit (Some x) (grp w)" using assms(3,4) by (auto simp: Group_Exit_def)
  then show ?thesis using late_exit [OF assms(1,2,5)] by simp
qed (use assms in auto)

subsection \<open>Facts about subgroups\<close>

lemma ctx_exit_keep: "ctx g = Some e \<Longrightarrow> ctx (exit x g) = Some e"
  by (simp add: exit_def cancel_def Let_def)

lemma ctx_policy_keep: "ctx g = Some e \<Longrightarrow> ctx (policy n p g) = Some e"
  by (cases p) (simp_all add: ctx_exit_keep)

lemma ctx_step_keep:
  assumes "ctx (grp w) = Some e" "step ev w = Inr w'"
  shows "ctx (grp w') = Some e"
proof (cases ev)
  case (Spawns n p t)
  then have "w' = Spawn n p t w" using assms(2) by simp
  then show ?thesis using assms(1) by (simp add: Spawn_def Let_def split: prod.splits)
next
  case (Finishes i out)
  from Finishes_grp [OF assms(2) [unfolded Finishes]]
  obtain n p where "grp w' = (if runTask out \<noteq> None then exit (runTask out) (grp w)
                     else if \<not> closing (grp w) then policy n p (grp w)
                     else grp w)\<lparr>running := running (grp w) - 1\<rparr>" by blast
  then show ?thesis using assms(1) by (simp add: ctx_exit_keep ctx_policy_keep)
next
  case (Exits x)
  then show ?thesis using assms by (auto simp: Group_Exit_def ctx_exit_keep)
next
  case (ParentEnds x)
  then show ?thesis using assms by (auto split: if_splits)
qed

lemma parent_step_keep:
  assumes "\<not> is_ParentEnds ev" "step ev n = Inr n'"
  shows "parent n' = parent n"
proof (cases ev)
  case (Spawns a p t)
  then have "n' = Spawn a p t n" using assms(2) by simp
  then show ?thesis by (simp add: Spawn_def Let_def split: prod.splits)
next
  case (Finishes i out)
  then show ?thesis using assms(2)
    by (auto simp: Group_runTask_def Let_def split: if_splits prod.splits sum.splits)
next
  case (Exits x)
  then show ?thesis using assms(2) by (auto simp: Group_Exit_def)
next
  case (ParentEnds x)
  then show ?thesis using assms(1) by simp
qed

lemma exec_snoc:
  "exec (evs @ [ev]) w = (case exec evs w of Inl p \<Rightarrow> Inl p | Inr w' \<Rightarrow> step ev w')"
  by (induction evs arbitrary: w) (auto split: sum.splits)

lemma nth_without:
  assumes "i < length xs" "k < length xs" "i \<noteq> k"
  shows "(take i xs @ drop (Suc i) xs) ! (if i < k then k - 1 else k) = xs ! k"
    and "(if i < k then k - 1 else k) < length (take i xs @ drop (Suc i) xs)"
  using assms by (auto simp: nth_append min_def)

lemma cascade_simps [simp]:
  "cascade c None = None"
  "cascade None n = n"
  by (simp_all add: cascade_def split: option.splits)

lemma cascade_Some:
  "cascade (Some e) (Some m) =
     Some (if parent m = None
           then m\<lparr>parent := Some e,
                  grp := (if ctx (grp m) = None then (grp m)\<lparr>ctx := Some e\<rparr> else grp m)\<rparr>
           else m)"
  by (simp add: cascade_def)

lemma cascade_follow:
  assumes p: "parent m = Context w" and s: "step ev w = Inr w'"
    and r: "\<exists>evs c. exec evs (start c) = Inr m"
  shows "\<exists>m'. cascade (Context w') (Some m) = Some m' \<and> parent m' = Context w' \<and>
           (\<exists>evs c. exec evs (start c) = Inr m')"
proof (cases "Context w'")
  case None
  have "Context w = None"
  proof (rule ccontr)
    assume "Context w \<noteq> None"
    then obtain e where "ctx (grp w) = Some e" by (auto simp: Context_def)
    from ctx_step_keep [OF this s] None show False by (simp add: Context_def)
  qed
  then show ?thesis using None p r by simp
next
  case (Some e)
  show ?thesis
  proof (cases "parent m")
    case None
    from r obtain evs c where x: "exec evs (start c) = Inr m" by blast
    let ?m' = "m\<lparr>parent := Some e,
                  grp := (if ctx (grp m) = None then (grp m)\<lparr>ctx := Some e\<rparr> else grp m)\<rparr>"
    have "step (ParentEnds e) m = Inr ?m'" using None by simp
    then have "exec (evs @ [ParentEnds e]) (start c) = Inr ?m'" using x by (simp add: exec_snoc)
    then have "\<exists>evs c. exec evs (start c) = Inr ?m'" by blast
    then show ?thesis using Some None by (simp add: cascade_Some)
  next
    case (Some e0)
    then have "ctx (grp w) = Some e0" using p by (simp add: Context_def)
    from ctx_step_keep [OF this s] have "Context w' = Some e0" by (simp add: Context_def)
    then show ?thesis using Some p r \<open>Context w' = Some e\<close> by (simp add: cascade_Some)
  qed
qed

lemma cascade_start:
  assumes s: "step ev w = Inr w'"
  shows "cascade (Context w') (Some (start (Context w))) = Some (start (Context w'))"
proof (cases "Context w")
  case None
  then show ?thesis
    by (cases "Context w'") (simp_all add: cascade_Some start_def NewGroup_def)
next
  case (Some e0)
  then have "ctx (grp w) = Some e0" by (simp add: Context_def)
  from ctx_step_keep [OF this s] have "Context w' = Some e0" by (simp add: Context_def)
  then show ?thesis using Some by (simp add: cascade_Some start_def NewGroup_def)
qed

lemma sub_inv_init:
  "sub_inv (nextTaskID w + 1, name, onExit, SubgroupBody fs) (NewSubgroup Spawn name onExit fs w)"
  by (simp add: sub_inv_def NewSubgroup_def Spawn_def Let_def split: prod.splits)

lemma sub_inv_Outer:
  assumes inv: "sub_inv t s" and st: "sub_step (Outer ev) s = Inr s'"
  shows "sub_inv t s'"
proof -
  from st have en: "\<not> (closure s \<noteq> SExited \<and> ends_goroutine ev (slot s))"
    by (auto split: if_splits)
  from st en obtain w' where w: "step ev (outer s) = Inr w'"
    and s': "s' = s\<lparr>outer := w', slot := slot_after ev (slot s),
                    nested := cascade (Context w') (nested s)\<rparr>"
    by (auto split: sum.splits if_splits)
  have a: "closure s' \<noteq> SExited \<longrightarrow>
        slot s' < length (goroutines (outer s')) \<and> goroutines (outer s') ! slot s' = t"
  proof
    assume "closure s' \<noteq> SExited"
    then have live: "closure s \<noteq> SExited" using s' by simp
    then have k: "slot s < length (goroutines (outer s))" and g: "goroutines (outer s) ! slot s = t"
      using inv by (simp_all add: sub_inv_def)
    show "slot s' < length (goroutines (outer s')) \<and> goroutines (outer s') ! slot s' = t"
    proof (cases ev)
      case (Spawns n p x)
      then have "w' = Spawn n p x (outer s)" using w by simp
      then show ?thesis using Spawn_effect [of n p x "outer s"] k g s' Spawns
        by (simp add: nth_append)
    next
      case (Finishes i out)
      from Finishes_effect [OF w [unfolded Finishes]]
      have i: "i < length (goroutines (outer s))"
        and gs: "goroutines w' = take i (goroutines (outer s)) @ drop (Suc i) (goroutines (outer s))"
        by simp_all
      have ne: "i \<noteq> slot s" using en live Finishes by simp
      from nth_without [OF i k ne] show ?thesis using s' Finishes gs g by simp
    next
      case (Exits x)
      from quiet_step_effect [OF w, of x] Exits show ?thesis using k g s' by simp
    next
      case (ParentEnds x)
      from quiet_step_effect [OF w, of _ x] ParentEnds show ?thesis using k g s' by simp
    qed
  qed
  have b: "closure s' = SNewGroup \<longrightarrow> nested s' = None"
    using inv s' by (simp add: sub_inv_def)
  have c: "closure s' = SSend \<longrightarrow> nested s' = Some (start (Context (outer s')))"
    using inv s' cascade_start [OF w] by (simp add: sub_inv_def)
  have f: "\<forall>n. nested s' = Some n \<longrightarrow>
        parent n = Context (outer s') \<and> (\<exists>evs c. exec evs (start c) = Inr n)"
  proof (intro allI impI)
    fix n assume n: "nested s' = Some n"
    then obtain m where m: "nested s = Some m"
      using s' by (cases "nested s") simp_all
    then have pm: "parent m = Context (outer s)" and rm: "\<exists>evs c. exec evs (start c) = Inr m"
      using inv by (simp_all add: sub_inv_def)
    from cascade_follow [OF pm w rm] n m s'
    show "parent n = Context (outer s') \<and> (\<exists>evs c. exec evs (start c) = Inr n)" by auto
  qed
  have d: "closure s' \<noteq> SNewGroup \<longrightarrow> nested s' \<noteq> None"
  proof
    assume "closure s' \<noteq> SNewGroup"
    then obtain m where m: "nested s = Some m" using inv s' by (auto simp: sub_inv_def)
    then have pm: "parent m = Context (outer s)" and rm: "\<exists>evs c. exec evs (start c) = Inr m"
      using inv by (simp_all add: sub_inv_def)
    from cascade_follow [OF pm w rm] m s' show "nested s' \<noteq> None" by auto
  qed
  have e: "received s' = (closure s' \<noteq> SNewGroup \<and> closure s' \<noteq> SSend)"
    using inv s' by (simp add: sub_inv_def)
  show ?thesis unfolding sub_inv_def by (intro conjI a b c d e f)
qed

lemma sub_inv_Nested:
  assumes inv: "sub_inv t s" and st: "sub_step (Nested ev) s = Inr s'"
  shows "sub_inv t s'"
proof -
  from st obtain n n' where n: "nested s = Some n" and rc: "received s"
    and np: "\<not> is_ParentEnds ev" and w: "step ev n = Inr n'" and s': "s' = s\<lparr>nested := Some n'\<rparr>"
    by (auto split: option.splits if_splits sum.splits)
  have pn: "parent n = Context (outer s)" and rn: "\<exists>evs c. exec evs (start c) = Inr n"
    using inv n by (simp_all add: sub_inv_def)
  from rn obtain evs c where "exec evs (start c) = Inr n" by blast
  then have "exec (evs @ [ev]) (start c) = Inr n'" using w by (simp add: exec_snoc)
  then have rn': "\<exists>evs c. exec evs (start c) = Inr n'" by blast
  have pn': "parent n' = Context (outer s)" using parent_step_keep [OF np w] pn by simp
  show ?thesis using inv rc s' pn' rn' by (auto simp: sub_inv_def)
qed

lemma body_step_CRet:
  "closure s = SComplete (CRet r) \<Longrightarrow>
   body_step s =
     (case step (Finishes (slot s) (Returned r)) (outer s) of
        Inl p \<Rightarrow> Inl (Stopped p)
      | Inr w' \<Rightarrow> Inr (s\<lparr>outer := w', closure := SExited,
                         nested := cascade (Context w') (nested s)\<rparr>))"
  by (simp add: body_step_def)

lemma body_step_Complete:
  "closure s = SComplete p \<Longrightarrow> nested s = Some n \<Longrightarrow> \<forall>r. p \<noteq> CRet r \<Longrightarrow>
   body_step s =
     (case Complete_step (Context (outer s)) n p of
        None \<Rightarrow> Inr s
      | Some p' \<Rightarrow> Inr (s\<lparr>closure := SComplete p'\<rparr>))"
  by (cases p) (simp_all add: body_step_def)

lemma sub_inv_Body:
  assumes inv: "sub_inv t s" and st: "sub_step Body s = Inr s'"
  shows "sub_inv t s'"
proof (cases "closure s")
  case SNewGroup
  then have "s' = s\<lparr>nested := Some (start (Context (outer s))), closure := SSend\<rparr>"
    using st by (simp add: body_step_def)
  moreover have "exec [] (start (Context (outer s))) = Inr (start (Context (outer s)))" by simp
  then have "\<exists>evs c. exec evs (start c) = Inr (start (Context (outer s)))" by blast
  moreover have "parent (start (Context (outer s))) = Context (outer s)"
    by (simp add: start_def NewGroup_def)
  ultimately show ?thesis using inv SNewGroup by (simp add: sub_inv_def)
next
  case SSend
  then have "s' = s\<lparr>received := True, closure := SComplete CSelect\<rparr>"
    using st by (simp add: body_step_def)
  then show ?thesis using inv SSend by (simp add: sub_inv_def)
next
  case (SComplete p)
  obtain n where n: "nested s = Some n" using inv SComplete by (auto simp: sub_inv_def)
  have pn: "parent n = Context (outer s)" and rn: "\<exists>evs c. exec evs (start c) = Inr n"
    using inv n by (simp_all add: sub_inv_def)
  show ?thesis
  proof (cases "\<exists>r. p = CRet r")
    case True
    then obtain r where r: "p = CRet r" by blast
    from st SComplete r obtain w' where w: "step (Finishes (slot s) (Returned r)) (outer s) = Inr w'"
      and s': "s' = s\<lparr>outer := w', closure := SExited, nested := cascade (Context w') (nested s)\<rparr>"
      by (auto simp: body_step_CRet split: sum.splits)
    from cascade_follow [OF pn w rn] obtain m' where
      cm: "cascade (Context w') (Some n) = Some m'" and pm: "parent m' = Context w'"
      and rm: "\<exists>evs c. exec evs (start c) = Inr m'" by blast
    have "s' = s\<lparr>outer := w', closure := SExited, nested := Some m'\<rparr>"
      using s' n cm by simp
    then show ?thesis using inv SComplete pm rm by (simp add: sub_inv_def)
  next
    case False
    then have "\<forall>r. p \<noteq> CRet r" by simp
    from body_step_Complete [OF SComplete n this] st
    have "s' = s \<or> (\<exists>p'. s' = s\<lparr>closure := SComplete p'\<rparr>)"
      by (auto split: option.splits)
    then show ?thesis using inv SComplete by (auto simp: sub_inv_def)
  qed
next
  case SExited
  then show ?thesis using st by (simp add: body_step_def)
qed

lemma sub_inv_step:
  "sub_inv t s \<Longrightarrow> sub_step h s = Inr s' \<Longrightarrow> sub_inv t s'"
  by (cases h) (auto intro: sub_inv_Outer sub_inv_Nested sub_inv_Body simp del: sub_step.simps)

lemma sub_inv_exec:
  "sub_inv t s \<Longrightarrow> sub_exec hs s = Inr s' \<Longrightarrow> sub_inv t s'"
proof (induction hs arbitrary: s)
  case Nil
  then show ?case by simp
next
  case (Cons h hs)
  from Cons.prems(2) obtain s1 where a: "sub_step h s = Inr s1" and b: "sub_exec hs s1 = Inr s'"
    by (auto split: sum.splits)
  from Cons.IH [OF sub_inv_step [OF Cons.prems(1) a] b] show ?case .
qed

lemma Complete_run_Suc:
  "\<forall>r. p \<noteq> CRet r \<Longrightarrow>
   Complete_run (Suc k) c n p =
     (case Complete_step c n p of None \<Rightarrow> None | Some p' \<Rightarrow> Complete_run k c n p')"
  by (cases p) simp_all

lemma Complete_run_0: "Complete_run 0 c n p = Some r \<Longrightarrow> p = CRet r"
  by (cases p) simp_all

lemma body_runs_Complete:
  "Complete_run k c n p = Some r \<Longrightarrow> closure s = SComplete p \<Longrightarrow> nested s = Some n \<Longrightarrow>
   Context (outer s) = c \<Longrightarrow>
   \<exists>m\<le>k. sub_exec (replicate m Body) s = Inr (s\<lparr>closure := SComplete (CRet r)\<rparr>)"
proof (induction k arbitrary: p s)
  case 0
  then have "p = CRet r" by (simp add: Complete_run_0)
  then have "sub_exec (replicate 0 Body) s = Inr (s\<lparr>closure := SComplete (CRet r)\<rparr>)"
    using 0 by simp
  then show ?case by blast
next
  case (Suc k)
  show ?case
  proof (cases "\<exists>r'. p = CRet r'")
    case True
    then have "p = CRet r" using Suc.prems(1) by auto
    then have "sub_exec (replicate 0 Body) s = Inr (s\<lparr>closure := SComplete (CRet r)\<rparr>)"
      using Suc.prems by simp
    then show ?thesis by blast
  next
    case False
    then have np: "\<forall>r. p \<noteq> CRet r" by simp
    from Suc.prems(1) Complete_run_Suc [OF np, of k c n]
    obtain p' where cs: "Complete_step c n p = Some p'" and cr: "Complete_run k c n p' = Some r"
      by (auto split: option.splits)
    let ?s1 = "s\<lparr>closure := SComplete p'\<rparr>"
    have b: "sub_step Body s = Inr ?s1"
      using body_step_Complete [OF Suc.prems(2,3) np] cs Suc.prems(4) by simp
    from Suc.IH [OF cr, of ?s1] Suc.prems(3,4)
    obtain m where m: "m \<le> k"
      and x: "sub_exec (replicate m Body) ?s1 = Inr (?s1\<lparr>closure := SComplete (CRet r)\<rparr>)"
      by auto
    have "sub_exec (replicate (Suc m) Body) s = Inr (s\<lparr>closure := SComplete (CRet r)\<rparr>)"
      using b x by (simp del: sub_step.simps)
    then show ?thesis using m by (intro exI [of _ "Suc m"]) simp
  qed
qed

lemma body_blocked_step:
  assumes c: "closure s = SComplete p" and n: "nested s = Some n"
    and b: "Complete (Context (outer s)) n = None"
    and p: "p = CSelect \<or>
            ((Context (outer s) \<noteq> None \<or> ctx (grp n) \<noteq> None) \<and>
             (p = CWait WDone \<or> p = CWait (WRecv (Done n))))"
  shows "\<exists>p'. sub_step Body s = Inr (s\<lparr>closure := SComplete p'\<rparr>) \<and>
           (p' = CSelect \<or>
            ((Context (outer s) \<noteq> None \<or> ctx (grp n) \<noteq> None) \<and>
             (p' = CWait WDone \<or> p' = CWait (WRecv (Done n)))))"
proof -
  have np: "\<forall>r. p \<noteq> CRet r" using p by auto
  have open_gate: "Context (outer s) \<noteq> None \<or> ctx (grp n) \<noteq> None \<Longrightarrow> \<not> chan_closed n (Done n)"
    using b by (auto simp: Complete_eq split: if_splits)
  have same: "s\<lparr>closure := SComplete p\<rparr> = s" using c by simp
  from p consider (sel) "p = CSelect"
    | (fetch) "Context (outer s) \<noteq> None \<or> ctx (grp n) \<noteq> None" "p = CWait WDone"
    | (recv) "Context (outer s) \<noteq> None \<or> ctx (grp n) \<noteq> None" "p = CWait (WRecv (Done n))"
    by blast
  then show ?thesis
  proof cases
    case sel
    then show ?thesis using body_step_Complete [OF c n np] same
      by (cases "Context (outer s) \<noteq> None \<or> ctx (grp n) \<noteq> None") auto
  next
    case fetch
    then show ?thesis using body_step_Complete [OF c n np] by auto
  next
    case recv
    have "sub_step Body s = Inr s"
      using body_step_Complete [OF c n np] open_gate [OF recv(1)] recv(2) by simp
    then have "sub_step Body s = Inr (s\<lparr>closure := SComplete p\<rparr>)" using same by simp
    then show ?thesis using recv by blast
  qed
qed

lemma body_blocked:
  "closure s = SComplete p \<Longrightarrow> nested s = Some n \<Longrightarrow> Complete (Context (outer s)) n = None \<Longrightarrow>
   p = CSelect \<or>
     ((Context (outer s) \<noteq> None \<or> ctx (grp n) \<noteq> None) \<and>
      (p = CWait WDone \<or> p = CWait (WRecv (Done n)))) \<Longrightarrow>
   \<exists>p'. sub_exec (replicate m Body) s = Inr (s\<lparr>closure := SComplete p'\<rparr>) \<and> (\<forall>r. p' \<noteq> CRet r)"
proof (induction m arbitrary: p s)
  case 0
  then have "sub_exec (replicate 0 Body) s = Inr (s\<lparr>closure := SComplete p\<rparr>)" by simp
  moreover have "\<forall>r. p \<noteq> CRet r" using 0 by auto
  ultimately show ?case by blast
next
  case (Suc m)
  from body_blocked_step [OF Suc.prems]
  obtain p' where st: "sub_step Body s = Inr (s\<lparr>closure := SComplete p'\<rparr>)"
    and p': "p' = CSelect \<or>
            ((Context (outer s) \<noteq> None \<or> ctx (grp n) \<noteq> None) \<and>
             (p' = CWait WDone \<or> p' = CWait (WRecv (Done n))))" by blast
  let ?s1 = "s\<lparr>closure := SComplete p'\<rparr>"
  from Suc.IH [of ?s1 p'] Suc.prems(2,3) p'
  obtain q where x: "sub_exec (replicate m Body) ?s1 = Inr (?s1\<lparr>closure := SComplete q\<rparr>)"
    and q: "\<forall>r. q \<noteq> CRet r" by auto
  have "sub_exec (replicate (Suc m) Body) s = Inr (s\<lparr>closure := SComplete q\<rparr>)"
    using st x by (simp del: sub_step.simps)
  then show ?case using q by blast
qed

lemma exec_append:
  "exec (xs @ ys) w = (case exec xs w of Inl p \<Rightarrow> Inl p | Inr w' \<Rightarrow> exec ys w')"
  by (induction xs arbitrary: w) (auto split: sum.splits)

lemma outer_step:
  assumes "sub_step h s = Inr s'"
  shows "outer s' = outer s \<or> (\<exists>ev. step ev (outer s) = Inr (outer s'))"
proof (cases h)
  case (Outer ev)
  then obtain w' where "step ev (outer s) = Inr w'" and "outer s' = w'"
    using assms by (auto simp del: step.simps split: if_splits sum.splits)
  then have "step ev (outer s) = Inr (outer s')" by simp
  then show ?thesis by blast
next
  case (Nested ev)
  then show ?thesis using assms
    by (auto simp del: step.simps split: option.splits if_splits sum.splits)
next
  case Body
  show ?thesis
  proof (cases "closure s")
    case (SComplete p)
    show ?thesis
    proof (cases "\<exists>r. p = CRet r")
      case True
      then obtain r where r: "p = CRet r" by blast
      from assms Body SComplete r obtain w' where
        w: "step (Finishes (slot s) (Returned r)) (outer s) = Inr w'" and "outer s' = w'"
        by (auto simp: body_step_CRet simp del: step.simps split: sum.splits)
      then have "step (Finishes (slot s) (Returned r)) (outer s) = Inr (outer s')" by simp
      then show ?thesis by blast
    next
      case False
      then show ?thesis using assms Body SComplete
        by (cases p) (auto simp: body_step_def split: option.splits)
    qed
  qed (use assms Body in \<open>auto simp: body_step_def\<close>)
qed

lemma outer_exec:
  "sub_exec hs s = Inr s' \<Longrightarrow> \<exists>evs. exec evs (outer s) = Inr (outer s')"
proof (induction hs arbitrary: s)
  case Nil
  then have "exec [] (outer s) = Inr (outer s')" by simp
  then show ?case by blast
next
  case (Cons h hs)
  from Cons.prems obtain s1 where a: "sub_step h s = Inr s1" and b: "sub_exec hs s1 = Inr s'"
    by (auto split: sum.splits)
  from Cons.IH [OF b] obtain evs where e: "exec evs (outer s1) = Inr (outer s')" by blast
  from outer_step [OF a] show ?case
  proof
    assume "outer s1 = outer s"
    then show ?thesis using e by auto
  next
    assume "\<exists>ev. step ev (outer s) = Inr (outer s1)"
    then obtain ev where "step ev (outer s) = Inr (outer s1)" by blast
    then have "exec (ev # evs) (outer s) = Inr (outer s')" using e by simp
    then show ?thesis by blast
  qed
qed

text \<open>The equations that evaluate a concrete history.\<close>

lemmas run_simps =
  start_def NewGroup_def Spawn_def Group_runTask_def Group_Exit_def exit_def cancel_def
  make_chan_def close_chan_def Let_def Is_chain.simps chan_closed_def Done_def Running_def
  Context_def Wait_eq Complete_eq debug_Stack_def

lemmas sub_simps = NewSubgroup_def NewSubgroup_recv_def body_step_def cascade_def

section \<open>Reporting an error: \<open>exit\<close>\<close>

text \<open>
  C1 (as the claim states it, refuted). The claim: while \<open>closing\<close> is true, only
  \<open>context.Canceled\<close> itself is dropped, and an error that merely wraps it is
  recorded if the result slot is unset. In the history below a task is spawned,
  \<open>Exit(nil)\<close> starts the shutdown without recording anything, and the task then
  returns an error that wraps \<open>context.Canceled\<close>: the result slot is still unset
  afterwards, so the wrapped error was dropped.
\<close>

theorem C1_wrapped_cancellation_dropped:
  "exec [Spawns ''worker'' Continue (TaskFn 0), Exits None,
         Finishes 0 (Returned (Some (WithMessage Canceled ''worker stopped'')))] (start None)
   = Inr \<lparr>nextTaskID = 0x0bace1d000000001, parent = None,
          grp = \<lparr>ctx = Some Canceled, running = 0, done_chan = 1, closing = True, err = None\<rparr>,
          chans = [True, True], goroutines = []\<rparr>"
  by (simp add: start_def NewGroup_def Spawn_def Group_runTask_def Group_Exit_def exit_def
      cancel_def make_chan_def close_chan_def Let_def Is_chain.simps)

text \<open>
  C1 (amended). While \<open>closing\<close> is true, an error reported through \<open>exit\<close> is
  dropped, leaving the group as it was, exactly when \<open>errors.Is(err, context.Canceled)\<close>
  holds, that is when \<open>err\<close> is \<open>context.Canceled\<close> or has it on its \<open>Unwrap\<close>
  chain; any other report is written to the result slot if the slot is unset.
\<close>

theorem C1_exit_while_closing:
  "closing g \<Longrightarrow>
     exit e g = (if errors_Is e Canceled then g
                 else g\<lparr>err := (if err g = None then e else err g)\<rparr>) \<and>
     errors_Is (Some Canceled) Canceled \<and>
     errors_Is (Some (WithMessage x m)) Canceled = errors_Is (Some x) Canceled \<and>
     errors_Is (Some (PanicError (ErrorValue x) st)) Canceled = errors_Is (Some x) Canceled \<and>
     \<not> errors_Is None Canceled \<and>
     \<not> errors_Is (Some DeadlineExceeded) Canceled \<and>
     \<not> errors_Is (Some (Fundamental m)) Canceled \<and>
     \<not> errors_Is (Some (PanicError (PlainValue m) st)) Canceled"
  by (simp add: exit_def Let_def Is_chain_unfold [of _ Canceled])

theorem C1_exit_while_closing_witness:
  "closing \<lparr>ctx = Some Canceled, running = 1, done_chan = 1, closing = True, err = None\<rparr> \<and>
   exit (Some (WithMessage Canceled ''worker stopped''))
     \<lparr>ctx = Some Canceled, running = 1, done_chan = 1, closing = True, err = None\<rparr>
   = \<lparr>ctx = Some Canceled, running = 1, done_chan = 1, closing = True, err = None\<rparr> \<and>
   exit (Some (Fundamental ''boom''))
     \<lparr>ctx = Some Canceled, running = 1, done_chan = 1, closing = True, err = None\<rparr>
   = \<lparr>ctx = Some Canceled, running = 1, done_chan = 1, closing = True,
       err = Some (Fundamental ''boom'')\<rparr>"
  using C1_exit_while_closing
    [of "\<lparr>ctx = Some Canceled, running = 1, done_chan = 1, closing = True, err = None\<rparr>"
        "Some (WithMessage Canceled ''worker stopped'')" Canceled "''worker stopped''"]
    C1_exit_while_closing
    [of "\<lparr>ctx = Some Canceled, running = 1, done_chan = 1, closing = True, err = None\<rparr>"
        "Some (Fundamental ''boom'')" Canceled "''boom''"]
  by simp

section \<open>Subgroups as tasks\<close>

text \<open>
  C2 (as the claim states it, refuted). The claim: every invocation of \<open>NewSubgroup\<close>
  registers the nested group with the \<open>Fail\<close> exit policy. \<open>NewSubgroup\<close> takes the
  policy as its argument \<open>onExit\<close> and hands it to \<open>spawn\<close> as it is: called with
  \<open>Continue\<close> on a fresh group, the one task it registers has the policy
  \<open>Continue\<close>.
\<close>

theorem C2_caller_chooses_policy:
  "NewSubgroup Spawn ''updater'' Continue [] (start None)
   = \<lparr>outer = \<lparr>nextTaskID = 0x0bace1d000000001, parent = None,
                  grp = \<lparr>ctx = None, running = 1, done_chan = 1, closing = False, err = None\<rparr>,
                  chans = [True, False],
                  goroutines = [(0x0bace1d000000001, ''updater'', Continue, SubgroupBody [])]\<rparr>,
       slot = 0, closure = SNewGroup, nested = None, received = False\<rparr>"
  by (simp add: run_simps sub_simps)

text \<open>
  C2 (amended). Every invocation of \<open>NewSubgroup\<close> registers the nested group as a
  single task of the parent group: it calls the parent's \<open>Spawn\<close> once, with the
  given name, with the exit policy \<open>onExit\<close> that the caller passed, and with a task
  body that creates the nested group and returns its \<open>Complete\<close>. In every state
  \<open>s\<close> that the parent and the subgroup reach afterwards:
  \<^item> the parent has gained exactly that goroutine, and it stays a live task of the
    parent, under that name and policy, until the body returns;
  \<^item> the first step of the body makes the nested group by \<open>NewGroup\<close> of the task's
    context, the second sends it, and \<open>NewSubgroup\<close> returns that group and no other;
  \<^item> the nested group is a group made by \<open>NewGroup\<close>, with the parent group's
    context as its parent context;
  \<^item> from then on the body runs \<open>Complete\<close> of the nested group with the task's
    context: if \<open>Complete\<close> returns \<open>r\<close>, the body alone gets to the point of
    returning \<open>r\<close>; if \<open>Complete\<close> is blocked, the body never returns by itself;
  \<^item> when the body returns \<open>r\<close>, the goroutine ends in the parent's \<open>runTask\<close>
    with \<open>r\<close> as the task's result: an error is reported, and nil is handled by
    the policy \<open>onExit\<close> under the task's name;
  \<^item> the parent group has changed by events of its own only, this one among them.
\<close>

theorem C2_NewSubgroup:
  assumes "sub_exec hs (NewSubgroup Spawn name onExit fs w) = Inr s"
  shows
   "outer (NewSubgroup Spawn name onExit fs w) = Spawn name onExit (SubgroupBody fs) w \<and>
    goroutines (outer (NewSubgroup Spawn name onExit fs w)) =
      goroutines w @ [(nextTaskID w + 1, name, onExit, SubgroupBody fs)] \<and>
    running (grp (outer (NewSubgroup Spawn name onExit fs w))) = running (grp w) + 1 \<and>
    closure (NewSubgroup Spawn name onExit fs w) = SNewGroup \<and>
    NewSubgroup_recv (NewSubgroup Spawn name onExit fs w) = None \<and>
    (closure s \<noteq> SExited \<longrightarrow>
       slot s < length (goroutines (outer s)) \<and>
       goroutines (outer s) ! slot s = (nextTaskID w + 1, name, onExit, SubgroupBody fs)) \<and>
    (closure s = SNewGroup \<longrightarrow>
       nested s = None \<and> NewSubgroup_recv s = None \<and>
       sub_step Body s = Inr (s\<lparr>nested := Some (start (Context (outer s))), closure := SSend\<rparr>)) \<and>
    (closure s = SSend \<longrightarrow>
       nested s = Some (start (Context (outer s))) \<and> NewSubgroup_recv s = None \<and>
       sub_step Body s = Inr (s\<lparr>received := True, closure := SComplete CSelect\<rparr>)) \<and>
    (closure s \<noteq> SNewGroup \<and> closure s \<noteq> SSend \<longrightarrow>
       nested s \<noteq> None \<and> NewSubgroup_recv s = nested s) \<and>
    (\<forall>n. nested s = Some n \<longrightarrow>
       parent n = Context (outer s) \<and> (\<exists>evs c. exec evs (start c) = Inr n)) \<and>
    (\<forall>k p n r. closure s = SComplete p \<and> nested s = Some n \<and>
         Complete_run k (Context (outer s)) n p = Some r \<longrightarrow>
       (\<exists>m\<le>k. sub_exec (replicate m Body) s = Inr (s\<lparr>closure := SComplete (CRet r)\<rparr>))) \<and>
    (\<forall>n m. closure s = SComplete CSelect \<and> nested s = Some n \<and>
         Complete (Context (outer s)) n = None \<longrightarrow>
       (\<exists>p. sub_exec (replicate m Body) s = Inr (s\<lparr>closure := SComplete p\<rparr>) \<and>
            (\<forall>r. p \<noteq> CRet r))) \<and>
    (\<forall>r u. closure s = SComplete (CRet r) \<and>
         step (Finishes (slot s) (Returned r)) (outer s) = Inr u \<longrightarrow>
       sub_step Body s = Inr (s\<lparr>outer := u, closure := SExited,
                                nested := cascade (Context u) (nested s)\<rparr>) \<and>
       grp u = (if r \<noteq> None then exit r (grp (outer s))
                else if \<not> closing (grp (outer s)) then policy name onExit (grp (outer s))
                else grp (outer s))\<lparr>running := running (grp (outer s)) - 1\<rparr>) \<and>
    (\<exists>evs. exec evs (Spawn name onExit (SubgroupBody fs) w) = Inr (outer s))"
proof -
  let ?t = "(nextTaskID w + 1, name, onExit, SubgroupBody fs)"
  have inv: "sub_inv ?t s" by (rule sub_inv_exec [OF sub_inv_init assms])
  have c1: "outer (NewSubgroup Spawn name onExit fs w) = Spawn name onExit (SubgroupBody fs) w"
    by (simp add: NewSubgroup_def)
  have c2: "goroutines (outer (NewSubgroup Spawn name onExit fs w)) = goroutines w @ [?t]"
    using Spawn_effect [of name onExit "SubgroupBody fs" w] by (simp add: NewSubgroup_def)
  have c3: "running (grp (outer (NewSubgroup Spawn name onExit fs w))) = running (grp w) + 1"
    by (simp add: NewSubgroup_def Spawn_def Let_def split: prod.splits)
  have c4: "closure (NewSubgroup Spawn name onExit fs w) = SNewGroup"
    by (simp add: NewSubgroup_def)
  have c5: "NewSubgroup_recv (NewSubgroup Spawn name onExit fs w) = None"
    by (simp add: NewSubgroup_def NewSubgroup_recv_def)
  have c6: "closure s \<noteq> SExited \<longrightarrow>
       slot s < length (goroutines (outer s)) \<and> goroutines (outer s) ! slot s = ?t"
    using inv by (simp add: sub_inv_def)
  have c7: "closure s = SNewGroup \<longrightarrow>
       nested s = None \<and> NewSubgroup_recv s = None \<and>
       sub_step Body s = Inr (s\<lparr>nested := Some (start (Context (outer s))), closure := SSend\<rparr>)"
    using inv by (simp add: sub_inv_def NewSubgroup_recv_def body_step_def)
  have c8: "closure s = SSend \<longrightarrow>
       nested s = Some (start (Context (outer s))) \<and> NewSubgroup_recv s = None \<and>
       sub_step Body s = Inr (s\<lparr>received := True, closure := SComplete CSelect\<rparr>)"
    using inv by (simp add: sub_inv_def NewSubgroup_recv_def body_step_def)
  have c9: "closure s \<noteq> SNewGroup \<and> closure s \<noteq> SSend \<longrightarrow>
       nested s \<noteq> None \<and> NewSubgroup_recv s = nested s"
    using inv by (simp add: sub_inv_def NewSubgroup_recv_def)
  have c10: "\<forall>n. nested s = Some n \<longrightarrow>
       parent n = Context (outer s) \<and> (\<exists>evs c. exec evs (start c) = Inr n)"
    using inv by (simp add: sub_inv_def)
  have c11: "\<forall>k p n r. closure s = SComplete p \<and> nested s = Some n \<and>
         Complete_run k (Context (outer s)) n p = Some r \<longrightarrow>
       (\<exists>m\<le>k. sub_exec (replicate m Body) s = Inr (s\<lparr>closure := SComplete (CRet r)\<rparr>))"
    using body_runs_Complete by blast
  have c12: "\<forall>n m. closure s = SComplete CSelect \<and> nested s = Some n \<and>
         Complete (Context (outer s)) n = None \<longrightarrow>
       (\<exists>p. sub_exec (replicate m Body) s = Inr (s\<lparr>closure := SComplete p\<rparr>) \<and>
            (\<forall>r. p \<noteq> CRet r))"
    using body_blocked by blast
  have c13: "\<forall>r u. closure s = SComplete (CRet r) \<and>
         step (Finishes (slot s) (Returned r)) (outer s) = Inr u \<longrightarrow>
       sub_step Body s = Inr (s\<lparr>outer := u, closure := SExited,
                                nested := cascade (Context u) (nested s)\<rparr>) \<and>
       grp u = (if r \<noteq> None then exit r (grp (outer s))
                else if \<not> closing (grp (outer s)) then policy name onExit (grp (outer s))
                else grp (outer s))\<lparr>running := running (grp (outer s)) - 1\<rparr>"
  proof (intro allI impI)
    fix r u
    assume a: "closure s = SComplete (CRet r) \<and>
         step (Finishes (slot s) (Returned r)) (outer s) = Inr u"
    then have cl: "closure s = SComplete (CRet r)"
      and st: "step (Finishes (slot s) (Returned r)) (outer s) = Inr u" by simp_all
    have g: "goroutines (outer s) ! slot s = ?t" using c6 cl by simp
    have b: "sub_step Body s = Inr (s\<lparr>outer := u, closure := SExited,
                                nested := cascade (Context u) (nested s)\<rparr>)"
      using body_step_CRet [OF cl] st by simp
    from Finishes_grp [OF st] g
    have "grp u = (if r \<noteq> None then exit r (grp (outer s))
                else if \<not> closing (grp (outer s)) then policy name onExit (grp (outer s))
                else grp (outer s))\<lparr>running := running (grp (outer s)) - 1\<rparr>" by auto
    with b show "sub_step Body s = Inr (s\<lparr>outer := u, closure := SExited,
                                nested := cascade (Context u) (nested s)\<rparr>) \<and>
       grp u = (if r \<noteq> None then exit r (grp (outer s))
                else if \<not> closing (grp (outer s)) then policy name onExit (grp (outer s))
                else grp (outer s))\<lparr>running := running (grp (outer s)) - 1\<rparr>" by simp
  qed
  have c14: "\<exists>evs. exec evs (Spawn name onExit (SubgroupBody fs) w) = Inr (outer s)"
    using outer_exec [OF assms] by (simp add: NewSubgroup_def)
  show ?thesis by (intro conjI c1 c2 c3 c4 c5 c6 c7 c8 c9 c10 c11 c12 c13 c14)
qed

theorem C2_NewSubgroup_witness:
  "sub_exec [Body] (NewSubgroup Spawn ''updater'' Fail [] (start None))
   = Inr \<lparr>outer = \<lparr>nextTaskID = 0x0bace1d000000001, parent = None,
                 grp = \<lparr>ctx = None, running = 1, done_chan = 1, closing = False, err = None\<rparr>,
                 chans = [True, False],
                 goroutines = [(0x0bace1d000000001, ''updater'', Fail, SubgroupBody [])]\<rparr>,
         slot = 0, closure = SSend,
         nested = Some
           \<lparr>nextTaskID = 0x0bace1d000000000, parent = None,
                       grp = \<lparr>ctx = None, running = 0, done_chan = 0, closing = False, err = None\<rparr>,
                       chans = [True],
                       goroutines = []\<rparr>,
         received = False\<rparr> \<and>
   sub_exec [Body, Body] (NewSubgroup Spawn ''updater'' Fail [] (start None))
   = Inr \<lparr>outer = \<lparr>nextTaskID = 0x0bace1d000000001, parent = None,
                 grp = \<lparr>ctx = None, running = 1, done_chan = 1, closing = False, err = None\<rparr>,
                 chans = [True, False],
                 goroutines = [(0x0bace1d000000001, ''updater'', Fail, SubgroupBody [])]\<rparr>,
         slot = 0, closure = SComplete CSelect,
         nested = Some
           \<lparr>nextTaskID = 0x0bace1d000000000, parent = None,
                       grp = \<lparr>ctx = None, running = 0, done_chan = 0, closing = False, err = None\<rparr>,
                       chans = [True],
                       goroutines = []\<rparr>,
         received = True\<rparr> \<and>
   NewSubgroup_recv
     \<lparr>outer = \<lparr>nextTaskID = 0x0bace1d000000001, parent = None,
                 grp = \<lparr>ctx = None, running = 1, done_chan = 1, closing = False, err = None\<rparr>,
                 chans = [True, False],
                 goroutines = [(0x0bace1d000000001, ''updater'', Fail, SubgroupBody [])]\<rparr>,
         slot = 0, closure = SComplete CSelect,
         nested = Some
           \<lparr>nextTaskID = 0x0bace1d000000000, parent = None,
                       grp = \<lparr>ctx = None, running = 0, done_chan = 0, closing = False, err = None\<rparr>,
                       chans = [True],
                       goroutines = []\<rparr>,
         received = True\<rparr>
   = Some \<lparr>nextTaskID = 0x0bace1d000000000, parent = None,
         grp = \<lparr>ctx = None, running = 0, done_chan = 0, closing = False, err = None\<rparr>,
         chans = [True],
         goroutines = []\<rparr> \<and>
   Complete None
     \<lparr>nextTaskID = 0x0bace1d000000000, parent = None,
         grp = \<lparr>ctx = None, running = 0, done_chan = 0, closing = False, err = None\<rparr>,
         chans = [True],
         goroutines = []\<rparr>
   = None \<and>
   sub_exec [Body, Body, Body]
     \<lparr>outer = \<lparr>nextTaskID = 0x0bace1d000000001, parent = None,
                 grp = \<lparr>ctx = None, running = 1, done_chan = 1, closing = False, err = None\<rparr>,
                 chans = [True, False],
                 goroutines = [(0x0bace1d000000001, ''updater'', Fail, SubgroupBody [])]\<rparr>,
         slot = 0, closure = SComplete CSelect,
         nested = Some
           \<lparr>nextTaskID = 0x0bace1d000000000, parent = None,
                       grp = \<lparr>ctx = None, running = 0, done_chan = 0, closing = False, err = None\<rparr>,
                       chans = [True],
                       goroutines = []\<rparr>,
         received = True\<rparr>
   = Inr \<lparr>outer = \<lparr>nextTaskID = 0x0bace1d000000001, parent = None,
                 grp = \<lparr>ctx = None, running = 1, done_chan = 1, closing = False, err = None\<rparr>,
                 chans = [True, False],
                 goroutines = [(0x0bace1d000000001, ''updater'', Fail, SubgroupBody [])]\<rparr>,
         slot = 0, closure = SComplete CSelect,
         nested = Some
           \<lparr>nextTaskID = 0x0bace1d000000000, parent = None,
                       grp = \<lparr>ctx = None, running = 0, done_chan = 0, closing = False, err = None\<rparr>,
                       chans = [True],
                       goroutines = []\<rparr>,
         received = True\<rparr> \<and>
   sub_exec [Body, Body, Outer (ParentEnds Canceled)] (NewSubgroup Spawn ''updater'' Fail [] (start None))
   = Inr \<lparr>outer = \<lparr>nextTaskID = 0x0bace1d000000001, parent = Some Canceled,
                 grp = \<lparr>ctx = Some Canceled, running = 1, done_chan = 1, closing = False, err = None\<rparr>,
                 chans = [True, False],
                 goroutines = [(0x0bace1d000000001, ''updater'', Fail, SubgroupBody [])]\<rparr>,
         slot = 0, closure = SComplete CSelect,
         nested = Some
           \<lparr>nextTaskID = 0x0bace1d000000000, parent = Some Canceled,
                       grp = \<lparr>ctx = Some Canceled, running = 0, done_chan = 0, closing = False, err = None\<rparr>,
                       chans = [True],
                       goroutines = []\<rparr>,
         received = True\<rparr> \<and>
   Complete (Some Canceled)
     \<lparr>nextTaskID = 0x0bace1d000000000, parent = Some Canceled,
         grp = \<lparr>ctx = Some Canceled, running = 0, done_chan = 0, closing = False, err = None\<rparr>,
         chans = [True],
         goroutines = []\<rparr>
   = Some (Some Canceled) \<and>
   sub_exec [Body, Body, Body, Body, Body, Body]
     \<lparr>outer = \<lparr>nextTaskID = 0x0bace1d000000001, parent = Some Canceled,
                 grp = \<lparr>ctx = Some Canceled, running = 1, done_chan = 1, closing = False, err = None\<rparr>,
                 chans = [True, False],
                 goroutines = [(0x0bace1d000000001, ''updater'', Fail, SubgroupBody [])]\<rparr>,
         slot = 0, closure = SComplete CSelect,
         nested = Some
           \<lparr>nextTaskID = 0x0bace1d000000000, parent = Some Canceled,
                       grp = \<lparr>ctx = Some Canceled, running = 0, done_chan = 0, closing = False, err = None\<rparr>,
                       chans = [True],
                       goroutines = []\<rparr>,
         received = True\<rparr>
   = Inr \<lparr>outer = \<lparr>nextTaskID = 0x0bace1d000000001, parent = Some Canceled,
                 grp = \<lparr>ctx = Some Canceled, running = 1, done_chan = 1, closing = False, err = None\<rparr>,
                 chans = [True, False],
                 goroutines = [(0x0bace1d000000001, ''updater'', Fail, SubgroupBody [])]\<rparr>,
         slot = 0, closure = SComplete (CRet (Some Canceled)),
         nested = Some
           \<lparr>nextTaskID = 0x0bace1d000000000, parent = Some Canceled,
                       grp = \<lparr>ctx = Some Canceled, running = 0, done_chan = 0, closing = False, err = None\<rparr>,
                       chans = [True],
                       goroutines = []\<rparr>,
         received = True\<rparr> \<and>
   step (Finishes 0 (Returned (Some Canceled)))
     \<lparr>nextTaskID = 0x0bace1d000000001, parent = Some Canceled,
         grp = \<lparr>ctx = Some Canceled, running = 1, done_chan = 1, closing = False, err = None\<rparr>,
         chans = [True, False],
         goroutines = [(0x0bace1d000000001, ''updater'', Fail, SubgroupBody [])]\<rparr>
   = Inr \<lparr>nextTaskID = 0x0bace1d000000001, parent = Some Canceled,
         grp = \<lparr>ctx = Some Canceled, running = 0, done_chan = 1, closing = True, err = Some Canceled\<rparr>,
         chans = [True, True],
         goroutines = []\<rparr> \<and>
   sub_step Body
     \<lparr>outer = \<lparr>nextTaskID = 0x0bace1d000000001, parent = Some Canceled,
                 grp = \<lparr>ctx = Some Canceled, running = 1, done_chan = 1, closing = False, err = None\<rparr>,
                 chans = [True, False],
                 goroutines = [(0x0bace1d000000001, ''updater'', Fail, SubgroupBody [])]\<rparr>,
         slot = 0, closure = SComplete (CRet (Some Canceled)),
         nested = Some
           \<lparr>nextTaskID = 0x0bace1d000000000, parent = Some Canceled,
                       grp = \<lparr>ctx = Some Canceled, running = 0, done_chan = 0, closing = False, err = None\<rparr>,
                       chans = [True],
                       goroutines = []\<rparr>,
         received = True\<rparr>
   = Inr \<lparr>outer = \<lparr>nextTaskID = 0x0bace1d000000001, parent = Some Canceled,
                 grp = \<lparr>ctx = Some Canceled, running = 0, done_chan = 1, closing = True, err = Some Canceled\<rparr>,
                 chans = [True, True],
                 goroutines = []\<rparr>,
         slot = 0, closure = SExited,
         nested = Some
           \<lparr>nextTaskID = 0x0bace1d000000000, parent = Some Canceled,
                       grp = \<lparr>ctx = Some Canceled, running = 0, done_chan = 0, closing = False, err = None\<rparr>,
                       chans = [True],
                       goroutines = []\<rparr>,
         received = True\<rparr>"
  (is "?h1 \<and> ?h2 \<and> ?recv \<and> ?blk \<and> ?stay \<and> ?hA \<and> ?ret \<and> ?run \<and> ?fin \<and> ?exit")
proof -
  have h1: ?h1 by (simp add: run_simps sub_simps)
  have h2: ?h2 by (simp add: run_simps sub_simps)
  have hA: ?hA by (simp add: run_simps sub_simps)
  have hB: "sub_exec [Body, Body, Outer (ParentEnds Canceled), Body, Body, Body, Body, Body, Body]
      (NewSubgroup Spawn ''updater'' Fail [] (start None))
    = Inr \<lparr>outer = \<lparr>nextTaskID = 0x0bace1d000000001, parent = Some Canceled,
                 grp = \<lparr>ctx = Some Canceled, running = 1, done_chan = 1, closing = False, err = None\<rparr>,
                 chans = [True, False],
                 goroutines = [(0x0bace1d000000001, ''updater'', Fail, SubgroupBody [])]\<rparr>,
         slot = 0, closure = SComplete (CRet (Some Canceled)),
         nested = Some
           \<lparr>nextTaskID = 0x0bace1d000000000, parent = Some Canceled,
                       grp = \<lparr>ctx = Some Canceled, running = 0, done_chan = 0, closing = False, err = None\<rparr>,
                       chans = [True],
                       goroutines = []\<rparr>,
         received = True\<rparr>"
    by (simp add: run_simps sub_simps)
  have blk: ?blk by (simp add: run_simps)
  have ret: ?ret by (simp add: run_simps)
  have stay: ?stay by (simp add: run_simps sub_simps)
  have run: ?run by (simp add: run_simps sub_simps)
  have fin: ?fin by (simp add: run_simps)
  note sent = C2_NewSubgroup [OF h1]
  note held = C2_NewSubgroup [OF h2]
  note ended = C2_NewSubgroup [OF hA]
  note returning = C2_NewSubgroup [OF hB]
  have "nested \<lparr>outer = \<lparr>nextTaskID = 0x0bace1d000000001, parent = None,
                 grp = \<lparr>ctx = None, running = 1, done_chan = 1, closing = False, err = None\<rparr>,
                 chans = [True, False],
                 goroutines = [(0x0bace1d000000001, ''updater'', Fail, SubgroupBody [])]\<rparr>,
         slot = 0, closure = SSend,
         nested = Some
           \<lparr>nextTaskID = 0x0bace1d000000000, parent = None,
                       grp = \<lparr>ctx = None, running = 0, done_chan = 0, closing = False, err = None\<rparr>,
                       chans = [True],
                       goroutines = []\<rparr>,
         received = False\<rparr>
    = Some (start None)"
    using sent [THEN conjunct2, THEN conjunct2, THEN conjunct2, THEN conjunct2, THEN conjunct2, THEN conjunct2, THEN conjunct2, THEN conjunct1] by (simp add: Context_def)
  have recv: ?recv
    using held [THEN conjunct2, THEN conjunct2, THEN conjunct2, THEN conjunct2, THEN conjunct2, THEN conjunct2, THEN conjunct2, THEN conjunct2, THEN conjunct1] by simp
  have "\<exists>p. sub_exec (replicate 3 Body)
      \<lparr>outer = \<lparr>nextTaskID = 0x0bace1d000000001, parent = None,
                 grp = \<lparr>ctx = None, running = 1, done_chan = 1, closing = False, err = None\<rparr>,
                 chans = [True, False],
                 goroutines = [(0x0bace1d000000001, ''updater'', Fail, SubgroupBody [])]\<rparr>,
         slot = 0, closure = SComplete CSelect,
         nested = Some
           \<lparr>nextTaskID = 0x0bace1d000000000, parent = None,
                       grp = \<lparr>ctx = None, running = 0, done_chan = 0, closing = False, err = None\<rparr>,
                       chans = [True],
                       goroutines = []\<rparr>,
         received = True\<rparr>
    = Inr (\<lparr>outer = \<lparr>nextTaskID = 0x0bace1d000000001, parent = None,
                 grp = \<lparr>ctx = None, running = 1, done_chan = 1, closing = False, err = None\<rparr>,
                 chans = [True, False],
                 goroutines = [(0x0bace1d000000001, ''updater'', Fail, SubgroupBody [])]\<rparr>,
         slot = 0, closure = SComplete CSelect,
         nested = Some
           \<lparr>nextTaskID = 0x0bace1d000000000, parent = None,
                       grp = \<lparr>ctx = None, running = 0, done_chan = 0, closing = False, err = None\<rparr>,
                       chans = [True],
                       goroutines = []\<rparr>,
         received = True\<rparr>
        \<lparr>closure := SComplete p\<rparr>) \<and> (\<forall>r. p \<noteq> CRet r)"
    using blk held [THEN conjunct2, THEN conjunct2, THEN conjunct2, THEN conjunct2, THEN conjunct2, THEN conjunct2, THEN conjunct2, THEN conjunct2, THEN conjunct2, THEN conjunct2, THEN conjunct2, THEN conjunct1, rule_format,
      where n = "\<lparr>nextTaskID = 0x0bace1d000000000, parent = None,
         grp = \<lparr>ctx = None, running = 0, done_chan = 0, closing = False, err = None\<rparr>,
         chans = [True],
         goroutines = []\<rparr>"
      and m = 3]
    by (simp add: Context_def)
  have "\<exists>m\<le>6. sub_exec (replicate m Body)
      \<lparr>outer = \<lparr>nextTaskID = 0x0bace1d000000001, parent = Some Canceled,
                 grp = \<lparr>ctx = Some Canceled, running = 1, done_chan = 1, closing = False, err = None\<rparr>,
                 chans = [True, False],
                 goroutines = [(0x0bace1d000000001, ''updater'', Fail, SubgroupBody [])]\<rparr>,
         slot = 0, closure = SComplete CSelect,
         nested = Some
           \<lparr>nextTaskID = 0x0bace1d000000000, parent = Some Canceled,
                       grp = \<lparr>ctx = Some Canceled, running = 0, done_chan = 0, closing = False, err = None\<rparr>,
                       chans = [True],
                       goroutines = []\<rparr>,
         received = True\<rparr>
    = Inr (\<lparr>outer = \<lparr>nextTaskID = 0x0bace1d000000001, parent = Some Canceled,
                 grp = \<lparr>ctx = Some Canceled, running = 1, done_chan = 1, closing = False, err = None\<rparr>,
                 chans = [True, False],
                 goroutines = [(0x0bace1d000000001, ''updater'', Fail, SubgroupBody [])]\<rparr>,
         slot = 0, closure = SComplete CSelect,
         nested = Some
           \<lparr>nextTaskID = 0x0bace1d000000000, parent = Some Canceled,
                       grp = \<lparr>ctx = Some Canceled, running = 0, done_chan = 0, closing = False, err = None\<rparr>,
                       chans = [True],
                       goroutines = []\<rparr>,
         received = True\<rparr>
        \<lparr>closure := SComplete (CRet (Some Canceled))\<rparr>)"
    using ret ended [THEN conjunct2, THEN conjunct2, THEN conjunct2, THEN conjunct2, THEN conjunct2, THEN conjunct2, THEN conjunct2, THEN conjunct2, THEN conjunct2, THEN conjunct2, THEN conjunct1, rule_format,
      where k = 6 and p = CSelect
      and n = "\<lparr>nextTaskID = 0x0bace1d000000000, parent = Some Canceled,
         grp = \<lparr>ctx = Some Canceled, running = 0, done_chan = 0, closing = False, err = None\<rparr>,
         chans = [True],
         goroutines = []\<rparr>"
      and r = "Some Canceled"]
    by (simp add: Context_def Complete_def)
  have gone: ?exit
    using fin returning [THEN conjunct2, THEN conjunct2, THEN conjunct2, THEN conjunct2, THEN conjunct2, THEN conjunct2, THEN conjunct2, THEN conjunct2, THEN conjunct2, THEN conjunct2, THEN conjunct2, THEN conjunct2, THEN conjunct1, rule_format,
      where r = "Some Canceled"
      and u = "\<lparr>nextTaskID = 0x0bace1d000000001, parent = Some Canceled,
         grp = \<lparr>ctx = Some Canceled, running = 0, done_chan = 1, closing = True, err = Some Canceled\<rparr>,
         chans = [True, True],
         goroutines = []\<rparr>"]
    by (simp add: Context_def cascade_def)
  show ?thesis using h1 h2 recv blk stay hA ret run fin gone by (intro conjI)
qed

section \<open>Exit policies\<close>

text \<open>
  C3 (as the claim states it, refuted). The claim: after a task with policy \<open>Exit\<close>
  has returned nil, no error recorded later can become the result, so \<open>Wait\<close>
  returns nil unless an error was recorded before. In the history below task \<open>A\<close>
  (policy \<open>Exit\<close>) returns nil while the result slot is unset, which shuts the group
  down and leaves the slot unset; task \<open>B\<close> then returns the error \<open>boom\<close>, which
  is recorded, and \<open>Wait\<close> returns it.
\<close>

theorem C3_error_after_nil_shutdown_recorded:
  "exec [Spawns ''A'' Exit (TaskFn 0), Spawns ''B'' Continue (TaskFn 1),
         Finishes 0 (Returned None)] (start None)
   = Inr \<lparr>nextTaskID = 0x0bace1d000000002, parent = None,
       grp = \<lparr>ctx = Some Canceled, running = 1, done_chan = 1, closing = True, err = None\<rparr>,
       chans = [True, False],
       goroutines = [(0x0bace1d000000002, ''B'', Continue, TaskFn 1)]\<rparr> \<and>
   map_sum id Wait
     (exec [Spawns ''A'' Exit (TaskFn 0), Spawns ''B'' Continue (TaskFn 1),
            Finishes 0 (Returned None),
            Finishes 0 (Returned (Some (Fundamental ''boom'')))] (start None))
   = Inr (Some (Some (Fundamental ''boom'')))"
  by (simp add: run_simps)

text \<open>
  C3 (amended). When a task with policy \<open>Exit\<close> returns nil, the group is shut down
  with a nil error: afterwards \<open>closing\<close> is set, the group's context is cancelled
  and the result slot is as it was. If the slot was unset, it stays unset, and
  \<open>Wait\<close> returns nil once the gate is closed, for as long as every later report is
  nil or a cancellation-class error; the first later report of any other error is
  recorded and becomes the result.
\<close>

theorem C3_exit_policy_returns_nil:
  assumes "exec evs (start c) = Inr w" "i < length (goroutines w)"
    "goroutines w ! i = (tid, name, Exit, task)"
    "step (Finishes i (Returned None)) w = Inr w1"
  shows "closing (grp w1) \<and> ctx (grp w1) \<noteq> None \<and> err (grp w1) = err (grp w) \<and>
         (\<forall>evs' u. err (grp w) = None \<and> exec evs' w1 = Inr u \<and>
              (\<forall>ev\<in>set evs'. reported ev = None \<or> errors_Is (reported ev) Canceled) \<longrightarrow>
              err (grp u) = None \<and>
              Wait u = (if chan_closed u (Done u) then Some None else None)) \<and>
         (\<forall>evs' u ev x v. err (grp w) = None \<and> exec evs' w1 = Inr u \<and>
              (\<forall>ev\<in>set evs'. reported ev = None \<or> errors_Is (reported ev) Canceled) \<and>
              step ev u = Inr v \<and> reported ev = Some x \<and> \<not> errors_Is (Some x) Canceled \<longrightarrow>
              err (grp v) = Some x)"
proof -
  have inv: "shut_inv (grp w)" by (rule shut_inv_exec [OF shut_inv_start assms(1)])
  have inv1: "shut_inv (grp w1)" by (rule shut_inv_step [OF inv assms(4)])
  have g1: "grp w1 = (if closing (grp w) then grp w else exit None (grp w))
              \<lparr>running := running (grp w) - 1\<rparr>"
    using Finishes_grp [OF assms(4)] assms(3) by auto
  have c1: "closing (grp w1)" using g1 by simp
  have x1: "ctx (grp w1) \<noteq> None" using inv1 c1 by (simp add: shut_inv_def)
  have e1: "err (grp w1) = err (grp w)" using g1 by (simp add: exit_def cancel_def Let_def)
  have q: "\<forall>evs' u. err (grp w) = None \<and> exec evs' w1 = Inr u \<and>
              (\<forall>ev\<in>set evs'. reported ev = None \<or> errors_Is (reported ev) Canceled) \<longrightarrow>
              err (grp u) = None \<and>
              Wait u = (if chan_closed u (Done u) then Some None else None)"
  proof (intro allI impI)
    fix evs' u
    assume a: "err (grp w) = None \<and> exec evs' w1 = Inr u \<and>
              (\<forall>ev\<in>set evs'. reported ev = None \<or> errors_Is (reported ev) Canceled)"
    then have n1: "err (grp w1) = None" using e1 by simp
    from a have x: "exec evs' w1 = Inr u"
      and r: "\<forall>ev\<in>set evs'. reported ev = None \<or> errors_Is (reported ev) Canceled"
      by simp_all
    from quiet_after_shutdown_exec [OF c1 n1 x r] have "err (grp u) = None" by simp
    then show "err (grp u) = None \<and>
              Wait u = (if chan_closed u (Done u) then Some None else None)"
      by (simp add: Wait_eq)
  qed
  have l: "\<forall>evs' u ev x v. err (grp w) = None \<and> exec evs' w1 = Inr u \<and>
              (\<forall>ev\<in>set evs'. reported ev = None \<or> errors_Is (reported ev) Canceled) \<and>
              step ev u = Inr v \<and> reported ev = Some x \<and> \<not> errors_Is (Some x) Canceled \<longrightarrow>
              err (grp v) = Some x"
  proof (intro allI impI)
    fix evs' u ev x v
    assume a: "err (grp w) = None \<and> exec evs' w1 = Inr u \<and>
              (\<forall>ev\<in>set evs'. reported ev = None \<or> errors_Is (reported ev) Canceled) \<and>
              step ev u = Inr v \<and> reported ev = Some x \<and> \<not> errors_Is (Some x) Canceled"
    then have n1: "err (grp w1) = None" using e1 by simp
    from a have x: "exec evs' w1 = Inr u"
      and q: "\<forall>ev\<in>set evs'. reported ev = None \<or> errors_Is (reported ev) Canceled"
      and s: "step ev u = Inr v" and r: "reported ev = Some x"
      and d: "\<not> errors_Is (Some x) Canceled" by simp_all
    from quiet_after_shutdown_exec [OF c1 n1 x q]
    have c2: "closing (grp u)" and n2: "err (grp u) = None" by simp_all
    show "err (grp v) = Some x" by (rule late_error_recorded [OF c2 n2 s r d])
  qed
  show ?thesis by (intro conjI c1 x1 e1 q l)
qed

theorem C3_exit_policy_returns_nil_witness:
  "exec [Spawns ''A'' Exit (TaskFn 0), Spawns ''B'' Continue (TaskFn 1)] (start None)
   = Inr \<lparr>nextTaskID = 0x0bace1d000000002, parent = None,
       grp = \<lparr>ctx = None, running = 2, done_chan = 1, closing = False, err = None\<rparr>,
       chans = [True, False],
       goroutines = [(0x0bace1d000000001, ''A'', Exit, TaskFn 0), (0x0bace1d000000002, ''B'', Continue, TaskFn 1)]\<rparr> \<and>
   step (Finishes 0 (Returned None))
     \<lparr>nextTaskID = 0x0bace1d000000002, parent = None,
       grp = \<lparr>ctx = None, running = 2, done_chan = 1, closing = False, err = None\<rparr>,
       chans = [True, False],
       goroutines = [(0x0bace1d000000001, ''A'', Exit, TaskFn 0), (0x0bace1d000000002, ''B'', Continue, TaskFn 1)]\<rparr>
   = Inr \<lparr>nextTaskID = 0x0bace1d000000002, parent = None,
       grp = \<lparr>ctx = Some Canceled, running = 1, done_chan = 1, closing = True, err = None\<rparr>,
       chans = [True, False],
       goroutines = [(0x0bace1d000000002, ''B'', Continue, TaskFn 1)]\<rparr> \<and>
   exec [Finishes 0 (Returned (Some Canceled))]
     \<lparr>nextTaskID = 0x0bace1d000000002, parent = None,
       grp = \<lparr>ctx = Some Canceled, running = 1, done_chan = 1, closing = True, err = None\<rparr>,
       chans = [True, False],
       goroutines = [(0x0bace1d000000002, ''B'', Continue, TaskFn 1)]\<rparr>
   = Inr \<lparr>nextTaskID = 0x0bace1d000000002, parent = None,
       grp = \<lparr>ctx = Some Canceled, running = 0, done_chan = 1, closing = True, err = None\<rparr>,
       chans = [True, True],
       goroutines = []\<rparr> \<and>
   Wait \<lparr>nextTaskID = 0x0bace1d000000002, parent = None,
       grp = \<lparr>ctx = Some Canceled, running = 0, done_chan = 1, closing = True, err = None\<rparr>,
       chans = [True, True],
       goroutines = []\<rparr> = Some None \<and>
   step (Finishes 0 (Returned (Some (Fundamental ''boom''))))
     \<lparr>nextTaskID = 0x0bace1d000000002, parent = None,
       grp = \<lparr>ctx = Some Canceled, running = 1, done_chan = 1, closing = True, err = None\<rparr>,
       chans = [True, False],
       goroutines = [(0x0bace1d000000002, ''B'', Continue, TaskFn 1)]\<rparr>
   = Inr \<lparr>nextTaskID = 0x0bace1d000000002, parent = None,
       grp = \<lparr>ctx = Some Canceled, running = 0, done_chan = 1, closing = True, err = Some (Fundamental ''boom'')\<rparr>,
       chans = [True, True],
       goroutines = []\<rparr>"
  (is "?h1 \<and> ?h4 \<and> ?q \<and> ?wait \<and> ?l")
proof -
  have h1: ?h1 by (simp add: run_simps)
  have h4: ?h4 by (simp add: run_simps)
  have q: ?q by (simp add: run_simps)
  have l: ?l by (simp add: run_simps)
  have h2: "0 < length (goroutines \<lparr>nextTaskID = 0x0bace1d000000002, parent = None,
       grp = \<lparr>ctx = None, running = 2, done_chan = 1, closing = False, err = None\<rparr>,
       chans = [True, False],
       goroutines = [(0x0bace1d000000001, ''A'', Exit, TaskFn 0), (0x0bace1d000000002, ''B'', Continue, TaskFn 1)]\<rparr>)"
    by simp
  have h3: "goroutines \<lparr>nextTaskID = 0x0bace1d000000002, parent = None,
       grp = \<lparr>ctx = None, running = 2, done_chan = 1, closing = False, err = None\<rparr>,
       chans = [True, False],
       goroutines = [(0x0bace1d000000001, ''A'', Exit, TaskFn 0), (0x0bace1d000000002, ''B'', Continue, TaskFn 1)]\<rparr> ! 0
      = (0x0bace1d000000001, ''A'', Exit, TaskFn 0)"
    by simp
  note shut = C3_exit_policy_returns_nil [OF h1 h2 h3 h4]
  have wait: ?wait
    using q shut [THEN conjunct2, THEN conjunct2, THEN conjunct2, THEN conjunct1, rule_format,
        where evs' = "[Finishes 0 (Returned (Some Canceled))]"
        and u = "\<lparr>nextTaskID = 0x0bace1d000000002, parent = None,
       grp = \<lparr>ctx = Some Canceled, running = 0, done_chan = 1, closing = True, err = None\<rparr>,
       chans = [True, True],
       goroutines = []\<rparr>"]
    by (simp add: chan_closed_def Done_def Is_chain.simps)
  have "err (grp \<lparr>nextTaskID = 0x0bace1d000000002, parent = None,
       grp = \<lparr>ctx = Some Canceled, running = 0, done_chan = 1, closing = True, err = Some (Fundamental ''boom'')\<rparr>,
       chans = [True, True],
       goroutines = []\<rparr>) = Some (Fundamental ''boom'')"
    using l shut [THEN conjunct2, THEN conjunct2, THEN conjunct2, THEN conjunct2, rule_format,
        where evs' = "[]"
        and u = "\<lparr>nextTaskID = 0x0bace1d000000002, parent = None,
       grp = \<lparr>ctx = Some Canceled, running = 1, done_chan = 1, closing = True, err = None\<rparr>,
       chans = [True, False],
       goroutines = [(0x0bace1d000000002, ''B'', Continue, TaskFn 1)]\<rparr>"
        and ev = "Finishes 0 (Returned (Some (Fundamental ''boom'')))"
        and x = "Fundamental ''boom''"
        and v = "\<lparr>nextTaskID = 0x0bace1d000000002, parent = None,
       grp = \<lparr>ctx = Some Canceled, running = 0, done_chan = 1, closing = True, err = Some (Fundamental ''boom'')\<rparr>,
       chans = [True, True],
       goroutines = []\<rparr>"]
    by (simp add: Is_chain.simps)
  then show ?thesis using h1 h4 q wait l by (intro conjI)
qed

text \<open>
  C6 (as the claim states it, refuted). The claim: every task with policy \<open>Fail\<close>
  that returns nil makes the group shut down with the synthetic error that names the
  task. \<open>runTask\<close> looks at the policy only if the group is not closing yet. In the
  history below \<open>Exit(nil)\<close> has shut the group down before task \<open>A\<close> (policy
  \<open>Fail\<close>) returns nil: no error is reported for \<open>A\<close>, and the result stays nil.
\<close>

theorem C6_fail_policy_ignored_while_closing:
  "exec [Spawns ''A'' Fail (TaskFn 0), Exits None, Finishes 0 (Returned None)] (start None)
   = Inr \<lparr>nextTaskID = 0x0bace1d000000001, parent = None,
       grp = \<lparr>ctx = Some Canceled, running = 0, done_chan = 1, closing = True, err = None\<rparr>,
       chans = [True, True],
       goroutines = []\<rparr>"
  by (simp add: run_simps)

text \<open>
  C6 (amended). For every task spawned with policy \<open>Fail\<close> that returns nil while
  the group is not yet closing, the group shuts down with the synthetic error whose
  message is \<open>task <name> terminated unexpectedly\<close>: that error is reported through
  \<open>exit\<close> and becomes the result, \<open>closing\<close> is set and the context is cancelled.
  If the group is already closing, the task's return changes nothing but the running
  count.
\<close>

theorem C6_fail_policy_returns_nil:
  assumes "exec evs (start c) = Inr w" "i < length (goroutines w)"
    "goroutines w ! i = (tid, name, Fail, task)"
    "step (Finishes i (Returned None)) w = Inr w'"
  shows "(\<not> closing (grp w) \<longrightarrow>
            grp w' = (exit (Some (Fundamental (''task '' @ name @ '' terminated unexpectedly'')))
                        (grp w))\<lparr>running := running (grp w) - 1\<rparr> \<and>
            closing (grp w') \<and> ctx (grp w') \<noteq> None \<and>
            err (grp w') = Some (Fundamental (''task '' @ name @ '' terminated unexpectedly'')) \<and>
            Error (Fundamental (''task '' @ name @ '' terminated unexpectedly''))
              = ''task '' @ name @ '' terminated unexpectedly'') \<and>
         (closing (grp w) \<longrightarrow> grp w' = (grp w)\<lparr>running := running (grp w) - 1\<rparr>)"
proof -
  have inv: "shut_inv (grp w)" by (rule shut_inv_exec [OF shut_inv_start assms(1)])
  have g1: "grp w' = (if closing (grp w) then grp w
                      else exit (Some (Fundamental (''task '' @ name @ '' terminated unexpectedly'')))
                             (grp w))\<lparr>running := running (grp w) - 1\<rparr>"
    using Finishes_grp [OF assms(4)] assms(3) by auto
  have n: "\<not> closing (grp w) \<Longrightarrow> err (grp w) = None" using inv by (auto simp: shut_inv_def)
  show ?thesis using g1 n by (auto simp: exit_def cancel_def Let_def)
qed

theorem C6_fail_policy_returns_nil_witness:
  "exec [Spawns ''A'' Fail (TaskFn 0)] (start None)
   = Inr \<lparr>nextTaskID = 0x0bace1d000000001, parent = None,
       grp = \<lparr>ctx = None, running = 1, done_chan = 1, closing = False, err = None\<rparr>,
       chans = [True, False],
       goroutines = [(0x0bace1d000000001, ''A'', Fail, TaskFn 0)]\<rparr> \<and>
   step (Finishes 0 (Returned None))
     \<lparr>nextTaskID = 0x0bace1d000000001, parent = None,
       grp = \<lparr>ctx = None, running = 1, done_chan = 1, closing = False, err = None\<rparr>,
       chans = [True, False],
       goroutines = [(0x0bace1d000000001, ''A'', Fail, TaskFn 0)]\<rparr>
   = Inr \<lparr>nextTaskID = 0x0bace1d000000001, parent = None,
       grp = \<lparr>ctx = Some Canceled, running = 0, done_chan = 1, closing = True, err = Some (Fundamental ''task A terminated unexpectedly'')\<rparr>,
       chans = [True, True],
       goroutines = []\<rparr>"
  (is "?h1 \<and> ?h4")
proof -
  have h1: ?h1 by (simp add: run_simps)
  have h4: ?h4 by (simp add: run_simps)
  have h2: "0 < length (goroutines \<lparr>nextTaskID = 0x0bace1d000000001, parent = None,
       grp = \<lparr>ctx = None, running = 1, done_chan = 1, closing = False, err = None\<rparr>,
       chans = [True, False],
       goroutines = [(0x0bace1d000000001, ''A'', Fail, TaskFn 0)]\<rparr>)"
    by simp
  have h3: "goroutines \<lparr>nextTaskID = 0x0bace1d000000001, parent = None,
       grp = \<lparr>ctx = None, running = 1, done_chan = 1, closing = False, err = None\<rparr>,
       chans = [True, False],
       goroutines = [(0x0bace1d000000001, ''A'', Fail, TaskFn 0)]\<rparr> ! 0
      = (0x0bace1d000000001, ''A'', Fail, TaskFn 0)"
    by simp
  from C6_fail_policy_returns_nil [OF h1 h2 h3 h4]
  show ?thesis using h1 h4 by simp
qed

section \<open>The result slot\<close>

text \<open>
  C4. The result slot is first-write-wins. An error reported while the slot is unset
  is written to it as it is (unless it is dropped as a cancellation during shutdown);
  once the slot holds an error, no history of spawns, task completions, \<open>Exit\<close>
  calls and cancellations changes it, and \<open>Wait\<close>, when the gate is closed, returns
  that very value.
\<close>

theorem C4_first_write_wins:
  "(err g = None \<and> \<not> (closing g \<and> errors_Is e Canceled) \<longrightarrow> err (exit e g) = e) \<and>
   (err (grp w) = Some x \<and> exec evs w = Inr w' \<longrightarrow>
      err (grp w') = Some x \<and>
      Wait w' = (if chan_closed w' (Done w') then Some (Some x) else None))"
  by (auto simp: exit_def cancel_def Let_def Wait_eq dest: err_exec_set)

theorem C4_first_write_wins_witness:
  "err (exit (Some (Fundamental ''A failed'')) \<lparr>ctx = None, running = 0, done_chan = 0, closing = False, err = None\<rparr>)
   = Some (Fundamental ''A failed'') \<and>
   exec [Finishes 0 (Returned (Some (Fundamental ''B failed'')))]
     \<lparr>nextTaskID = 0x0bace1d000000002, parent = None,
       grp = \<lparr>ctx = Some Canceled, running = 1, done_chan = 1, closing = True, err = Some (Fundamental ''A failed'')\<rparr>,
       chans = [True, False],
       goroutines = [(0x0bace1d000000002, ''B'', Continue, TaskFn 1)]\<rparr>
   = Inr \<lparr>nextTaskID = 0x0bace1d000000002, parent = None,
       grp = \<lparr>ctx = Some Canceled, running = 0, done_chan = 1, closing = True, err = Some (Fundamental ''A failed'')\<rparr>,
       chans = [True, True],
       goroutines = []\<rparr> \<and>
   Wait \<lparr>nextTaskID = 0x0bace1d000000002, parent = None,
       grp = \<lparr>ctx = Some Canceled, running = 0, done_chan = 1, closing = True, err = Some (Fundamental ''A failed'')\<rparr>,
       chans = [True, True],
       goroutines = []\<rparr> = Some (Some (Fundamental ''A failed''))"
  (is "?a \<and> ?x \<and> ?w")
proof -
  have x: ?x by (simp add: run_simps)
  from C4_first_write_wins
    [where g = "\<lparr>ctx = None, running = 0, done_chan = 0, closing = False, err = None\<rparr>"
       and e = "Some (Fundamental ''A failed'')"
       and w = "\<lparr>nextTaskID = 0x0bace1d000000002, parent = None,
       grp = \<lparr>ctx = Some Canceled, running = 1, done_chan = 1, closing = True, err = Some (Fundamental ''A failed'')\<rparr>,
       chans = [True, False],
       goroutines = [(0x0bace1d000000002, ''B'', Continue, TaskFn 1)]\<rparr>"
       and x = "Fundamental ''A failed''"
       and evs = "[Finishes 0 (Returned (Some (Fundamental ''B failed'')))]"
       and w' = "\<lparr>nextTaskID = 0x0bace1d000000002, parent = None,
       grp = \<lparr>ctx = Some Canceled, running = 0, done_chan = 1, closing = True, err = Some (Fundamental ''A failed'')\<rparr>,
       chans = [True, True],
       goroutines = []\<rparr>"]
  show ?thesis using x by (simp add: chan_closed_def Done_def)
qed

section \<open>The completion gate\<close>

text \<open>
  C5. In every state \<open>w\<close> that a group reaches from \<open>NewGroup\<close> (by a history
  short enough for the 64-bit counter), the \<open>done\<close> channel is open if and only if
  \<open>running > 0\<close>, and no step panics by closing a channel twice. For a further step
  to \<open>w'\<close>: a new channel, open and not in the heap before, becomes the gate exactly
  when \<open>running\<close> goes from 0 to 1, and the step is then a \<open>Spawn\<close>; the gate is
  closed exactly when \<open>running\<close> goes to 0, and the step is then the end of a task;
  every other step leaves the gate and the heap of channels as they were.
\<close>

theorem C5_completion_gate:
  assumes "exec evs (start c) = Inr w" "length evs + 1 < 2 ^ 63"
  shows "(\<not> chan_closed w (Done w)) = (0 < Running w) \<and>
         step ev w \<noteq> Inl (Panic m) \<and>
         (\<forall>w'. step ev w = Inr w' \<longrightarrow>
            (\<not> chan_closed w' (Done w')) = (0 < Running w') \<and>
            (if Running w = 0 \<and> Running w' = 1
             then (\<exists>n p t. ev = Spawns n p t) \<and>
                  chans w' = chans w @ [False] \<and> Done w' = length (chans w)
             else if Running w \<noteq> 0 \<and> Running w' = 0
             then (\<exists>i out. ev = Finishes i out) \<and>
                  chans w' = (chans w)[Done w := True] \<and> Done w' = Done w
             else chans w' = chans w \<and> Done w' = Done w))"
proof -
  have len: "length evs < 2 ^ 63" using assms(2) by simp
  from reachable_inv [OF assms(1) len]
  have inv: "gate_inv w" and b: "length (goroutines w) < 2 ^ 63" by simp_all
  have b1: "length (goroutines w) + 1 < 2 ^ 63"
    using reachable_live [OF assms(1) len] assms(2) by simp
  have r: "Running w = int (length (goroutines w))" by (rule Running_live [OF inv b])
  have g: "(\<not> chan_closed w (Done w)) = (0 < Running w)"
    using gate_closed_iff [OF inv b] r by simp
  show ?thesis
    using g step_no_panic [OF inv] gate_transition [OF inv b1] by blast
qed

theorem C5_completion_gate_witness:
  "exec [Spawns ''A'' Continue (TaskFn 0)] (start None)
   = Inr \<lparr>nextTaskID = 0x0bace1d000000001, parent = None,
       grp = \<lparr>ctx = None, running = 1, done_chan = 1, closing = False, err = None\<rparr>,
       chans = [True, False],
       goroutines = [(0x0bace1d000000001, ''A'', Continue, TaskFn 0)]\<rparr> \<and>
   length [Spawns ''A'' Continue (TaskFn 0)] + 1 < (2::nat) ^ 63 \<and>
   step (Finishes 0 (Returned None))
     \<lparr>nextTaskID = 0x0bace1d000000001, parent = None,
       grp = \<lparr>ctx = None, running = 1, done_chan = 1, closing = False, err = None\<rparr>,
       chans = [True, False],
       goroutines = [(0x0bace1d000000001, ''A'', Continue, TaskFn 0)]\<rparr>
   = Inr \<lparr>nextTaskID = 0x0bace1d000000001, parent = None,
       grp = \<lparr>ctx = None, running = 0, done_chan = 1, closing = False, err = None\<rparr>,
       chans = [True, True],
       goroutines = []\<rparr> \<and>
   \<not> chan_closed \<lparr>nextTaskID = 0x0bace1d000000001, parent = None,
       grp = \<lparr>ctx = None, running = 1, done_chan = 1, closing = False, err = None\<rparr>,
       chans = [True, False],
       goroutines = [(0x0bace1d000000001, ''A'', Continue, TaskFn 0)]\<rparr> 1 \<and>
   chan_closed \<lparr>nextTaskID = 0x0bace1d000000001, parent = None,
       grp = \<lparr>ctx = None, running = 0, done_chan = 1, closing = False, err = None\<rparr>,
       chans = [True, True],
       goroutines = []\<rparr> 1"
  (is "?h1 \<and> ?h2 \<and> ?s \<and> ?o \<and> ?c")
proof -
  have h1: ?h1 by (simp add: run_simps)
  have h2: ?h2 by simp
  have s: ?s by (simp add: run_simps)
  from C5_completion_gate [OF h1 h2, of "Finishes 0 (Returned None)" "''close of closed channel''"] s
  show ?thesis using h1 h2 by (simp add: chan_closed_def Done_def Running_def)
qed

text \<open>
  C9. A channel that \<open>Done()\<close> has returned never goes back from closed to open:
  whatever happens to the group afterwards, every channel that is closed stays closed.
  In particular the channel obtained while \<open>running\<close> was zero is closed and stays
  closed; a \<open>Spawn\<close> at that point installs a different, new channel as the gate and
  leaves the old one closed.
\<close>

theorem C9_closed_gate_stays_closed:
  assumes "exec evs (start c) = Inr w" "length evs < 2 ^ 63" "exec evs' w = Inr w'"
  shows "(\<forall>ch. chan_closed w ch \<longrightarrow> chan_closed w' ch) \<and>
         (Running w = 0 \<longrightarrow>
            chan_closed w (Done w) \<and> chan_closed w' (Done w) \<and>
            Done (Spawn n p t w) \<noteq> Done w \<and>
            \<not> chan_closed (Spawn n p t w) (Done (Spawn n p t w)) \<and>
            chan_closed (Spawn n p t w) (Done w))"
proof -
  from reachable_inv [OF assms(1,2)]
  have inv: "gate_inv w" and b: "length (goroutines w) < 2 ^ 63" by simp_all
  have mono: "\<forall>ch. chan_closed w ch \<longrightarrow> chan_closed w' ch"
    using closed_exec [OF _ assms(3)] by blast
  have "Running w = 0 \<longrightarrow>
            chan_closed w (Done w) \<and> chan_closed w' (Done w) \<and>
            Done (Spawn n p t w) \<noteq> Done w \<and>
            \<not> chan_closed (Spawn n p t w) (Done (Spawn n p t w)) \<and>
            chan_closed (Spawn n p t w) (Done w)"
  proof
    assume z: "Running w = 0"
    then have c: "chan_closed w (Done w)" using gate_closed_iff [OF inv b] by simp
    have r0: "running (grp w) = 0"
      using z Running_live [OF inv b] running_zero_iff [OF inv] by simp
    have lt: "Done w < length (chans w)" using c by (simp add: chan_closed_def)
    have sp: "chan_closed (Spawn n p t w) (Done w)"
      using closed_step [OF c, of "Spawns n p t"] by simp
    show "chan_closed w (Done w) \<and> chan_closed w' (Done w) \<and>
            Done (Spawn n p t w) \<noteq> Done w \<and>
            \<not> chan_closed (Spawn n p t w) (Done (Spawn n p t w)) \<and>
            chan_closed (Spawn n p t w) (Done w)"
      using c mono sp lt Spawn_effect [of n p t w] r0
      by (auto simp: chan_closed_def)
  qed
  with mono show ?thesis by simp
qed

theorem C9_closed_gate_stays_closed_witness:
  "exec [] (start None)
   = Inr \<lparr>nextTaskID = 0x0bace1d000000000, parent = None,
       grp = \<lparr>ctx = None, running = 0, done_chan = 0, closing = False, err = None\<rparr>,
       chans = [True],
       goroutines = []\<rparr> \<and>
   length ([] :: event list) < 2 ^ 63 \<and>
   exec [Spawns ''A'' Continue (TaskFn 0)]
     \<lparr>nextTaskID = 0x0bace1d000000000, parent = None,
       grp = \<lparr>ctx = None, running = 0, done_chan = 0, closing = False, err = None\<rparr>,
       chans = [True],
       goroutines = []\<rparr>
   = Inr \<lparr>nextTaskID = 0x0bace1d000000001, parent = None,
       grp = \<lparr>ctx = None, running = 1, done_chan = 1, closing = False, err = None\<rparr>,
       chans = [True, False],
       goroutines = [(0x0bace1d000000001, ''A'', Continue, TaskFn 0)]\<rparr> \<and>
   Running \<lparr>nextTaskID = 0x0bace1d000000000, parent = None,
       grp = \<lparr>ctx = None, running = 0, done_chan = 0, closing = False, err = None\<rparr>,
       chans = [True],
       goroutines = []\<rparr> = 0 \<and>
   Done \<lparr>nextTaskID = 0x0bace1d000000000, parent = None,
       grp = \<lparr>ctx = None, running = 0, done_chan = 0, closing = False, err = None\<rparr>,
       chans = [True],
       goroutines = []\<rparr> = 0 \<and>
   chan_closed \<lparr>nextTaskID = 0x0bace1d000000001, parent = None,
       grp = \<lparr>ctx = None, running = 1, done_chan = 1, closing = False, err = None\<rparr>,
       chans = [True, False],
       goroutines = [(0x0bace1d000000001, ''A'', Continue, TaskFn 0)]\<rparr> 0 \<and>
   Done \<lparr>nextTaskID = 0x0bace1d000000001, parent = None,
       grp = \<lparr>ctx = None, running = 1, done_chan = 1, closing = False, err = None\<rparr>,
       chans = [True, False],
       goroutines = [(0x0bace1d000000001, ''A'', Continue, TaskFn 0)]\<rparr> = 1"
  (is "?h1 \<and> ?h2 \<and> ?h3 \<and> ?r \<and> ?d \<and> ?c \<and> ?n")
proof -
  have h1: ?h1 by (simp add: run_simps)
  have h2: ?h2 by simp
  have h3: ?h3 by (simp add: run_simps)
  have r: ?r by (simp add: Running_def)
  from C9_closed_gate_stays_closed [OF h1 h2 h3, of "''A''" Continue "TaskFn 0"] r
  show ?thesis using h1 h2 h3 by (simp add: Done_def)
qed

section \<open>Complete\<close>

text \<open>
  C7. For a group in any state reached from \<open>NewGroup\<close>, \<open>Complete(ctx)\<close> stays
  blocked as long as neither \<open>ctx\<close> nor the group's own context is cancelled, and
  after that as long as a subtask is running. When it returns, it returns the group
  result if that is a non-nil error, and \<open>ctx.Err()\<close> otherwise (the cancellation
  cause of \<open>ctx\<close>, nil if only the group's own context has been cancelled).
\<close>

theorem C7_Complete:
  assumes "exec evs (start p) = Inr w" "length evs < 2 ^ 63"
  shows "Complete c w =
     (if (c \<noteq> None \<or> Context w \<noteq> None) \<and> Running w = 0
      then Some (if err (grp w) \<noteq> None then err (grp w) else c) else None)"
proof -
  from reachable_inv [OF assms] have "chan_closed w (Done w) \<longleftrightarrow> Running w = 0"
    by (simp add: gate_closed_iff)
  then show ?thesis by (simp add: Complete_eq Context_def)
qed

theorem C7_Complete_witness:
  "exec [Exits (Some (Fundamental ''boom''))] (start None)
   = Inr \<lparr>nextTaskID = 0x0bace1d000000000, parent = None,
       grp = \<lparr>ctx = Some Canceled, running = 0, done_chan = 0, closing = True, err = Some (Fundamental ''boom'')\<rparr>,
       chans = [True],
       goroutines = []\<rparr> \<and>
   length [Exits (Some (Fundamental ''boom''))] < (2::nat) ^ 63 \<and>
   Complete (Some Canceled)
     \<lparr>nextTaskID = 0x0bace1d000000000, parent = None,
       grp = \<lparr>ctx = Some Canceled, running = 0, done_chan = 0, closing = True, err = Some (Fundamental ''boom'')\<rparr>,
       chans = [True],
       goroutines = []\<rparr>
   = Some (Some (Fundamental ''boom'')) \<and>
   exec [] (start None)
   = Inr \<lparr>nextTaskID = 0x0bace1d000000000, parent = None,
       grp = \<lparr>ctx = None, running = 0, done_chan = 0, closing = False, err = None\<rparr>,
       chans = [True],
       goroutines = []\<rparr> \<and>
   Complete (Some DeadlineExceeded)
     \<lparr>nextTaskID = 0x0bace1d000000000, parent = None,
       grp = \<lparr>ctx = None, running = 0, done_chan = 0, closing = False, err = None\<rparr>,
       chans = [True],
       goroutines = []\<rparr>
   = Some (Some DeadlineExceeded) \<and>
   Complete None
     \<lparr>nextTaskID = 0x0bace1d000000000, parent = None,
       grp = \<lparr>ctx = None, running = 0, done_chan = 0, closing = False, err = None\<rparr>,
       chans = [True],
       goroutines = []\<rparr>
   = None \<and>
   exec [Spawns ''A'' Continue (TaskFn 0)] (start None)
   = Inr \<lparr>nextTaskID = 0x0bace1d000000001, parent = None,
       grp = \<lparr>ctx = None, running = 1, done_chan = 1, closing = False, err = None\<rparr>,
       chans = [True, False],
       goroutines = [(0x0bace1d000000001, ''A'', Continue, TaskFn 0)]\<rparr> \<and>
   Complete (Some Canceled)
     \<lparr>nextTaskID = 0x0bace1d000000001, parent = None,
       grp = \<lparr>ctx = None, running = 1, done_chan = 1, closing = False, err = None\<rparr>,
       chans = [True, False],
       goroutines = [(0x0bace1d000000001, ''A'', Continue, TaskFn 0)]\<rparr>
   = None \<and>
   exec [Exits None] (start None)
   = Inr \<lparr>nextTaskID = 0x0bace1d000000000, parent = None,
       grp = \<lparr>ctx = Some Canceled, running = 0, done_chan = 0, closing = True, err = None\<rparr>,
       chans = [True],
       goroutines = []\<rparr> \<and>
   Complete None
     \<lparr>nextTaskID = 0x0bace1d000000000, parent = None,
       grp = \<lparr>ctx = Some Canceled, running = 0, done_chan = 0, closing = True, err = None\<rparr>,
       chans = [True],
       goroutines = []\<rparr>
   = Some None"
  (is "?h1 \<and> ?h2 \<and> ?c1 \<and> ?h3 \<and> ?c2 \<and> ?c3 \<and> ?h4 \<and> ?c4 \<and> ?h5 \<and> ?c5")
proof -
  have h1: ?h1 by (simp add: run_simps)
  have h2: ?h2 by simp
  have h3: ?h3 by (simp add: run_simps)
  have h4: ?h4 by (simp add: run_simps)
  have h5: ?h5 by (simp add: run_simps)
  have b5: "length [Exits None] < (2::nat) ^ 63" by simp
  have b0: "length ([] :: event list) < 2 ^ 63" by simp
  have b1: "length [Spawns ''A'' Continue (TaskFn 0)] < (2::nat) ^ 63" by simp
  from C7_Complete [OF h1 h2, of "Some Canceled"]
    C7_Complete [OF h3 b0, of "Some DeadlineExceeded"]
    C7_Complete [OF h3 b0, of None]
    C7_Complete [OF h4 b1, of "Some Canceled"]
    C7_Complete [OF h5 b5, of None]
  show ?thesis using h1 h2 h3 h4 h5 by (simp add: Context_def Running_def)
qed

section \<open>Fatal faults\<close>

text \<open>
  C8 (as the claim states it, refuted). The claim: whenever a task raises a fatal
  fault, the group result is the \<open>PanicError\<close> built from it. The result slot is
  first-write-wins: in the history below \<open>Exit\<close> records the error \<open>boom\<close> before
  the task \<open>doomed\<close> faults, and the group result is \<open>boom\<close>, which is no
  \<open>PanicError\<close>.
\<close>

theorem C8_fault_after_recorded_error:
  "exec [Spawns ''doomed'' Fail (TaskFn 0), Exits (Some (Fundamental ''boom'')),
         Finishes 0 (Panicked (PlainValue ''oops'') [''panicWith'', ''runTask''])] (start None)
   = Inr \<lparr>nextTaskID = 0x0bace1d000000001, parent = None,
       grp = \<lparr>ctx = Some Canceled, running = 0, done_chan = 1, closing = True, err = Some (Fundamental ''boom'')\<rparr>,
       chans = [True, True],
       goroutines = []\<rparr>"
  by (simp add: run_simps)

text \<open>
  C8 (amended). For every task that raises a fatal fault with payload \<open>V\<close>, the
  error that the task runner reports to the group is a \<open>PanicError\<close> holding \<open>V\<close>
  such that: if \<open>V\<close> is not error-shaped, \<open>Unwrap\<close> yields nothing and the message
  is \<open>"panic: "\<close> followed by the string form of \<open>V\<close>; if \<open>V\<close> is an error
  \<open>E\<close>, \<open>Unwrap\<close> yields \<open>E\<close> and the message is \<open>"panic: "\<close> followed by
  the message of \<open>E\<close>; the stack text starts with the header line followed by the name
  of the function where the fault was raised. That error becomes the group result if
  the result slot is unset when it is reported and it is not dropped as a cancellation
  during shutdown, as in a group whose only task faults.
\<close>

theorem C8_panic_capture:
  "runTask (Panicked v frames) = Some (PanicError v (debug_Stack frames)) \<and>
   Unwrap (PanicError (PlainValue s) st) = None \<and>
   Error (PanicError (PlainValue s) st) = ''panic: '' @ s \<and>
   Unwrap (PanicError (ErrorValue e) st) = Some e \<and>
   Error (PanicError (ErrorValue e) st) = ''panic: '' @ Error e \<and>
   prefix (''goroutine [running]:'' @ [CHR 0x0A] @ f) (debug_Stack (f # fs)) \<and>
   (\<forall>i w w'. step (Finishes i (Panicked v frames)) w = Inr w' \<and> err (grp w) = None \<and>
        \<not> (closing (grp w) \<and> errors_Is (Some (PanicError v (debug_Stack frames))) Canceled) \<longrightarrow>
        err (grp w') = Some (PanicError v (debug_Stack frames)))"
proof -
  have "\<And>i w w'. step (Finishes i (Panicked v frames)) w = Inr w' \<Longrightarrow> err (grp w) = None \<Longrightarrow>
        \<not> (closing (grp w) \<and> errors_Is (Some (PanicError v (debug_Stack frames))) Canceled) \<Longrightarrow>
        err (grp w') = Some (PanicError v (debug_Stack frames))"
  proof -
    fix i w w'
    assume s: "step (Finishes i (Panicked v frames)) w = Inr w'" and e: "err (grp w) = None"
      and d: "\<not> (closing (grp w) \<and> errors_Is (Some (PanicError v (debug_Stack frames))) Canceled)"
    from Finishes_grp [OF s]
    have "grp w' = (exit (Some (PanicError v (debug_Stack frames))) (grp w))
                     \<lparr>running := running (grp w) - 1\<rparr>" by auto
    then show "err (grp w') = Some (PanicError v (debug_Stack frames))"
      using e d by (auto simp: exit_def cancel_def Let_def)
  qed
  then have b: "\<forall>i w w'. step (Finishes i (Panicked v frames)) w = Inr w' \<and> err (grp w) = None \<and>
        \<not> (closing (grp w) \<and> errors_Is (Some (PanicError v (debug_Stack frames))) Canceled) \<longrightarrow>
        err (grp w') = Some (PanicError v (debug_Stack frames))" by blast
  have p: "prefix (''goroutine [running]:'' @ [CHR 0x0A] @ f) (debug_Stack (f # fs))"
    by (simp add: debug_Stack_def)
  show ?thesis by (intro conjI b p) simp_all
qed

theorem C8_panic_capture_witness:
  "step (Finishes 0 (Panicked (PlainValue ''oops'') [''panicWith'', ''runTask'']))
     \<lparr>nextTaskID = 0x0bace1d000000001, parent = None,
       grp = \<lparr>ctx = None, running = 1, done_chan = 1, closing = False, err = None\<rparr>,
       chans = [True, False],
       goroutines = [(0x0bace1d000000001, ''doomed'', Fail, TaskFn 0)]\<rparr>
   = Inr \<lparr>nextTaskID = 0x0bace1d000000001, parent = None,
       grp = \<lparr>ctx = Some Canceled, running = 0, done_chan = 1, closing = True, err = Some (PanicError (PlainValue ''oops'')
                  (debug_Stack [''panicWith'', ''runTask'']))\<rparr>,
       chans = [True, True],
       goroutines = []\<rparr> \<and>
   Error (PanicError (PlainValue ''oops'') (debug_Stack [''panicWith'', ''runTask'']))
   = ''panic: oops'' \<and>
   step (Finishes 0 (Panicked (ErrorValue (Fundamental ''oops'')) [''panicWith'', ''runTask'']))
     \<lparr>nextTaskID = 0x0bace1d000000001, parent = None,
       grp = \<lparr>ctx = None, running = 1, done_chan = 1, closing = False, err = None\<rparr>,
       chans = [True, False],
       goroutines = [(0x0bace1d000000001, ''doomed'', Fail, TaskFn 0)]\<rparr>
   = Inr \<lparr>nextTaskID = 0x0bace1d000000001, parent = None,
       grp = \<lparr>ctx = Some Canceled, running = 0, done_chan = 1, closing = True, err = Some (PanicError (ErrorValue (Fundamental ''oops''))
                  (debug_Stack [''panicWith'', ''runTask'']))\<rparr>,
       chans = [True, True],
       goroutines = []\<rparr> \<and>
   Error (PanicError (ErrorValue (Fundamental ''oops''))
            (debug_Stack [''panicWith'', ''runTask'']))
   = ''panic: oops''"
  (is "?s1 \<and> ?m1 \<and> ?s2 \<and> ?m2")
proof -
  have s1: ?s1 by (simp add: run_simps)
  have s2: ?s2 by (simp add: run_simps)
  note plain = C8_panic_capture
    [where v = "PlainValue ''oops''" and frames = "[''panicWith'', ''runTask'']"
       and s = "''oops''" and e = "Fundamental ''oops''"
       and f = "''panicWith''" and fs = "[''runTask'']"
       and st = "debug_Stack [''panicWith'', ''runTask'']"]
  note wrapped = C8_panic_capture
    [where v = "ErrorValue (Fundamental ''oops'')" and frames = "[''panicWith'', ''runTask'']"
       and s = "''oops''" and e = "Fundamental ''oops''"
       and f = "''panicWith''" and fs = "[''runTask'']"
       and st = "debug_Stack [''panicWith'', ''runTask'']"]
  have m1: ?m1
    using plain [THEN conjunct2, THEN conjunct2, THEN conjunct1] by simp
  have m2: ?m2
    using wrapped [THEN conjunct2, THEN conjunct2, THEN conjunct2, THEN conjunct2, THEN conjunct1]
    by simp
  have "err (grp \<lparr>nextTaskID = 0x0bace1d000000001, parent = None,
       grp = \<lparr>ctx = Some Canceled, running = 0, done_chan = 1, closing = True, err = Some (PanicError (PlainValue ''oops'')
                  (debug_Stack [''panicWith'', ''runTask'']))\<rparr>,
       chans = [True, True],
       goroutines = []\<rparr>)
      = Some (PanicError (PlainValue ''oops'') (debug_Stack [''panicWith'', ''runTask'']))"
    using s1 plain [THEN conjunct2, THEN conjunct2, THEN conjunct2, THEN conjunct2,
        THEN conjunct2, THEN conjunct2, rule_format, of 0
        "\<lparr>nextTaskID = 0x0bace1d000000001, parent = None,
       grp = \<lparr>ctx = None, running = 1, done_chan = 1, closing = False, err = None\<rparr>,
       chans = [True, False],
       goroutines = [(0x0bace1d000000001, ''doomed'', Fail, TaskFn 0)]\<rparr>"
        "\<lparr>nextTaskID = 0x0bace1d000000001, parent = None,
       grp = \<lparr>ctx = Some Canceled, running = 0, done_chan = 1, closing = True, err = Some (PanicError (PlainValue ''oops'')
                  (debug_Stack [''panicWith'', ''runTask'']))\<rparr>,
       chans = [True, True],
       goroutines = []\<rparr>"]
    by simp
  then show ?thesis using s1 m1 s2 m2 by (intro conjI)
qed

section \<open>Cancellation before shutdown\<close>

text \<open>
  C10. While the group is not yet closing, an error reported through \<open>Exit\<close> is
  treated in one way whatever it is, a cancellation-class error included: it is written
  to the result slot if the slot is unset, \<open>closing\<close> is set, and the group's context
  is cancelled. Nothing is dropped before \<open>closing\<close> is true.
\<close>

theorem C10_exit_before_closing:
  "\<not> closing (grp w) \<Longrightarrow>
     grp (Group_Exit e w) =
       (grp w)\<lparr>err := (if err (grp w) = None then e else err (grp w)),
                closing := True,
                ctx := (if ctx (grp w) = None then Some Canceled else ctx (grp w))\<rparr>"
  by (simp add: Group_Exit_def exit_def cancel_def Let_def)

theorem C10_exit_before_closing_witness:
  "\<not> closing (grp (start None)) \<and>
   errors_Is (Some Canceled) Canceled \<and>
   grp (Group_Exit (Some Canceled) (start None)) =
     \<lparr>ctx = Some Canceled, running = 0, done_chan = 0, closing = True, err = Some Canceled\<rparr>"
  using C10_exit_before_closing [of "start None" "Some Canceled"]
  by (simp add: start_def NewGroup_def Is_chain.simps)

end
